theory Spec2Isabelle
  imports Main
begin

section \<open>Data model of \<^verbatim>\<open>game.ts\<close>\<close>

text \<open>
  The class \<^verbatim>\<open>Minesweeper\<close> of \<^verbatim>\<open>game.ts\<close>: its fields as a record, its methods as functions
  from the game before to the game after. Sounds, the rendered cells, the overlay and the
  particles do not act on these fields and are left out.
\<close>

text \<open>
  The \<^verbatim>\<open>Cell\<close> interface. Coordinates are JavaScript numbers that the code compares with
  \<^verbatim>\<open>>= 0\<close>, so they are integers here; \<^verbatim>\<open>adjacentMines\<close> is the length of an array.
\<close>

record cell =
  row :: int
  col :: int
  isMine :: bool
  isRevealed :: bool
  isFlagged :: bool
  adjacentMines :: nat

type_synonym board = "cell list list"

text \<open>The texts written into \<^verbatim>\<open>faceElement\<close>: by \<^verbatim>\<open>newGame\<close> and the mouse-up handlers, by
  the mouse-down handler, by \<^verbatim>\<open>gameOver\<close> and by \<^verbatim>\<open>win\<close>. It is the only place where the
  code tells a won game from a lost one.\<close>

datatype face = Smile | Surprised | Dizzy | Cool

text \<open>
  The closures handed to \<^verbatim>\<open>setTimeout\<close> that change the game: the delayed
  \<^verbatim>\<open>revealCell(adjCell.row, adjCell.col, true)\<close> of the cascade, and the delayed
  \<^verbatim>\<open>cell.isRevealed = true\<close> of \<^verbatim>\<open>gameOver\<close>. The latter holds a reference to a cell
  object, which \<^verbatim>\<open>initBoard\<close> replaces by a fresh one: the task records the generation of
  the board its cell belongs to.
\<close>

datatype task = ChainReveal int int | MineShow nat int int

text \<open>\<^verbatim>\<open>TypeError\<close>: reading a property of \<^verbatim>\<open>undefined\<close>. \<^verbatim>\<open>DrawsExhausted\<close>: the
  loop of \<^verbatim>\<open>placeMines\<close> is still running when the given random draws are used up.\<close>

datatype error = TypeError | DrawsExhausted

datatype difficulty = Easy | Medium | Hard

record game =
  board :: board
  boardGen :: nat
  rows :: nat
  cols :: nat
  mines :: nat
  minesLeft :: int
  isGameOver :: bool
  isFirstClick :: bool
  timer :: nat
  timerInterval :: "nat option"
  intervals :: "nat list"
  nextHandle :: nat
  revealedCount :: nat
  totalNonMines :: int
  faceElement :: face
  pending :: "task list"

section \<open>Board access\<close>

text \<open>\<^verbatim>\<open>this.board[r][c]\<close>; \<^verbatim>\<open>None\<close> where JavaScript yields \<^verbatim>\<open>undefined\<close> or throws
  on \<^verbatim>\<open>undefined[c]\<close> (every use reads a property of the result next, which throws).\<close>

definition cellAt :: "board \<Rightarrow> int \<Rightarrow> int \<Rightarrow> cell option" where
  "cellAt b r c =
     (if 0 \<le> r \<and> r < int (length b)
      then (if 0 \<le> c \<and> c < int (length (b ! nat r))
            then Some (b ! nat r ! nat c) else None)
      else None)"

text \<open>An assignment to a field of \<^verbatim>\<open>this.board[r][c]\<close>, after the cell was read.\<close>

definition updCell :: "board \<Rightarrow> int \<Rightarrow> int \<Rightarrow> (cell \<Rightarrow> cell) \<Rightarrow> board" where
  "updCell b r c f =
     (case cellAt b r c of
        None \<Rightarrow> b
      | Some cl \<Rightarrow> b[nat r := (b ! nat r)[nat c := f cl]])"

text \<open>The two nested \<^verbatim>\<open>for\<close> loops over \<^verbatim>\<open>row < this.rows\<close>, \<^verbatim>\<open>col < this.cols\<close>.\<close>

definition allCoords :: "nat \<Rightarrow> nat \<Rightarrow> (int \<times> int) list" where
  "allCoords nr nc = concat (map (\<lambda>r. map (\<lambda>c. (int r, int c)) [0..<nc]) [0..<nr])"

definition initBoard :: "game \<Rightarrow> game" where
  "initBoard g =
     g\<lparr>board := map (\<lambda>r. map (\<lambda>c. \<lparr>row = int r, col = int c, isMine = False,
                                     isRevealed = False, isFlagged = False,
                                     adjacentMines = 0\<rparr>) [0..<cols g]) [0..<rows g],
       boardGen := Suc (boardGen g)\<rparr>"

text \<open>The positions \<^verbatim>\<open>getAdjacentCells\<close> visits, in loop order, after its bounds guard. The
  cells it returns are read by their \<^verbatim>\<open>row\<close>, \<^verbatim>\<open>col\<close> and \<^verbatim>\<open>isMine\<close> fields only. On a
  board that lacks a cell within \<^verbatim>\<open>rows\<close> and \<^verbatim>\<open>cols\<close> the code throws here or at the first
  read of the missing cell; the model fails here in both cases.\<close>

definition neighbours :: "nat \<Rightarrow> nat \<Rightarrow> int \<Rightarrow> int \<Rightarrow> (int \<times> int) list" where
  "neighbours nr nc r0 c0 =
     filter (\<lambda>(r, c). r \<ge> 0 \<and> r < int nr \<and> c \<ge> 0 \<and> c < int nc \<and> \<not> (r = r0 \<and> c = c0))
       [(r0 - 1, c0 - 1), (r0 - 1, c0), (r0 - 1, c0 + 1),
        (r0, c0 - 1), (r0, c0), (r0, c0 + 1),
        (r0 + 1, c0 - 1), (r0 + 1, c0), (r0 + 1, c0 + 1)]"

fun cellsAt :: "board \<Rightarrow> (int \<times> int) list \<Rightarrow> cell list option" where
  "cellsAt b [] = Some []"
| "cellsAt b ((r, c) # ps) =
     (case cellAt b r c of
        None \<Rightarrow> None
      | Some cl \<Rightarrow> (case cellsAt b ps of None \<Rightarrow> None | Some cls \<Rightarrow> Some (cl # cls)))"

definition getAdjacentCells :: "game \<Rightarrow> int \<Rightarrow> int \<Rightarrow> error + cell list" where
  "getAdjacentCells g r0 c0 =
     (case cellsAt (board g) (neighbours (rows g) (cols g) r0 c0) of
        None \<Rightarrow> Inl TypeError
      | Some cls \<Rightarrow> Inr cls)"

section \<open>Mine placement and adjacency counts\<close>

fun calcCells :: "game \<Rightarrow> (int \<times> int) list \<Rightarrow> error + game" where
  "calcCells g [] = Inr g"
| "calcCells g ((r, c) # ps) =
     (case cellAt (board g) r c of
        None \<Rightarrow> Inl TypeError
      | Some cl \<Rightarrow>
          if \<not> isMine cl
          then (case getAdjacentCells g r c of
                  Inl e \<Rightarrow> Inl e
                | Inr adjacent \<Rightarrow>
                    calcCells
                      (g\<lparr>board := updCell (board g) r c
                           (\<lambda>x. x\<lparr>adjacentMines := length (filter isMine adjacent)\<rparr>)\<rparr>) ps)
          else calcCells g ps)"

definition calculateAdjacentMines :: "game \<Rightarrow> error + game" where
  "calculateAdjacentMines g = calcCells g (allCoords (rows g) (cols g))"

text \<open>
  The \<^verbatim>\<open>while (minesPlaced < this.mines)\<close> loop. The exclusion zone is compared by
  \<^verbatim>\<open>row\<close> and \<^verbatim>\<open>col\<close>; its last entry is the object literal with these two fields. Each round consumes one pair
  \<^verbatim>\<open>(Math.floor(Math.random() * rows), Math.floor(Math.random() * cols))\<close>; the pairs the
  random generator will deliver are the last argument.
\<close>

fun placeLoop :: "game \<Rightarrow> cell list \<Rightarrow> nat \<Rightarrow> (int \<times> int) list \<Rightarrow> error + game" where
  "placeLoop g excludeZone minesPlaced [] =
     (if minesPlaced < mines g then Inl DrawsExhausted else Inr g)"
| "placeLoop g excludeZone minesPlaced ((r, c) # draws) =
     (if minesPlaced < mines g
      then (case cellAt (board g) r c of
              None \<Rightarrow> Inl TypeError
            | Some cl \<Rightarrow>
                if \<not> isMine cl \<and> \<not> list_ex (\<lambda>e. row e = r \<and> col e = c) excludeZone
                then placeLoop (g\<lparr>board := updCell (board g) r c (\<lambda>x. x\<lparr>isMine := True\<rparr>)\<rparr>)
                       excludeZone (Suc minesPlaced) draws
                else placeLoop g excludeZone minesPlaced draws)
      else Inr g)"

definition placeMines :: "game \<Rightarrow> int \<Rightarrow> int \<Rightarrow> (int \<times> int) list \<Rightarrow> error + game" where
  "placeMines g excludeRow excludeCol draws =
     (case getAdjacentCells g excludeRow excludeCol of
        Inl e \<Rightarrow> Inl e
      | Inr adj \<Rightarrow>
          (case placeLoop g
                  (adj @ [\<lparr>row = excludeRow, col = excludeCol, isMine = False,
                           isRevealed = False, isFlagged = False, adjacentMines = 0\<rparr>])
                  0 draws of
             Inl e \<Rightarrow> Inl e
           | Inr g' \<Rightarrow> calculateAdjacentMines g'))"

section \<open>Timer\<close>

text \<open>
  \<^verbatim>\<open>window.setInterval\<close> registers a callback under a fresh handle, a positive number;
  \<^verbatim>\<open>intervals\<close> are the handles the window still runs, \<^verbatim>\<open>timerInterval\<close> the one the
  game remembers. \<^verbatim>\<open>stopTimer\<close> tests the handle for truth, which 0 is not.
\<close>

definition startTimer :: "game \<Rightarrow> game" where
  "startTimer g =
     g\<lparr>timerInterval := Some (nextHandle g),
       intervals := nextHandle g # intervals g,
       nextHandle := Suc (nextHandle g)\<rparr>"

definition stopTimer :: "game \<Rightarrow> game" where
  "stopTimer g =
     (case timerInterval g of
        None \<Rightarrow> g
      | Some h \<Rightarrow>
          if h \<noteq> 0
          then g\<lparr>intervals := removeAll h (intervals g), timerInterval := None\<rparr>
          else g)"

text \<open>One firing of the interval callback registered under handle \<open>h\<close>.\<close>

definition tick :: "nat \<Rightarrow> game \<Rightarrow> game" where
  "tick h g =
     (if h \<in> set (intervals g)
      then (let t = timer g + 1 in g\<lparr>timer := (if t > 999 then 999 else t)\<rparr>)
      else g)"

section \<open>Reveal engine\<close>

definition gameOver :: "game \<Rightarrow> int \<Rightarrow> int \<Rightarrow> error + game" where
  "gameOver g hitRow hitCol =
     (let g1 = (stopTimer (g\<lparr>isGameOver := True\<rparr>))\<lparr>faceElement := Dizzy\<rparr>
      in case cellsAt (board g1) (allCoords (rows g1) (cols g1)) of
           None \<Rightarrow> Inl TypeError
         | Some cls \<Rightarrow>
             Inr (g1\<lparr>pending := pending g1 @
                        map (\<lambda>(r, c). MineShow (boardGen g1) r c)
                          (map fst (filter (\<lambda>(p, cl). isMine cl)
                             (zip (allCoords (rows g1) (cols g1)) cls)))\<rparr>))"

definition win :: "game \<Rightarrow> game" where
  "win g = (stopTimer (g\<lparr>isGameOver := True\<rparr>))\<lparr>faceElement := Cool\<rparr>"

text \<open>\<^verbatim>\<open>isChain\<close> selects sounds only; the recursive calls are deferred through
  \<^verbatim>\<open>setTimeout\<close> and therefore appended to \<^verbatim>\<open>pending\<close>.\<close>

definition revealCell :: "game \<Rightarrow> int \<Rightarrow> int \<Rightarrow> bool \<Rightarrow> error + game" where
  "revealCell g r c isChain =
     (case cellAt (board g) r c of
        None \<Rightarrow> Inl TypeError
      | Some cl \<Rightarrow>
          if isRevealed cl \<or> isFlagged cl then Inr g
          else
            (let g1 = g\<lparr>board := updCell (board g) r c (\<lambda>x. x\<lparr>isRevealed := True\<rparr>),
                       revealedCount := revealedCount g + 1\<rparr>
             in if isMine cl then gameOver g1 r c
                else
                  (case (if adjacentMines cl = 0
                         then (case getAdjacentCells g1 r c of
                                 Inl e \<Rightarrow> Inl e
                               | Inr adjacent \<Rightarrow>
                                   Inr (g1\<lparr>pending := pending g1 @
                                          map (\<lambda>a. ChainReveal (row a) (col a)) adjacent\<rparr>))
                         else Inr g1) of
                     Inl e \<Rightarrow> Inl e
                   | Inr g2 \<Rightarrow>
                       if int (revealedCount g2) = totalNonMines g2
                       then Inr (win g2) else Inr g2)))"

section \<open>Input handlers and controller\<close>

text \<open>
  The handlers take the position from the data attributes of the clicked element with
  \<^verbatim>\<open>parseInt\<close>. A position is an integer here; for \<^verbatim>\<open>NaN\<close> the lookup of the cell is
  undefined as it is for a position outside the board.
\<close>

definition handleClick :: "game \<Rightarrow> int \<Rightarrow> int \<Rightarrow> (int \<times> int) list \<Rightarrow> error + game" where
  "handleClick g r c draws =
     (if isGameOver g then Inr g
      else (case cellAt (board g) r c of
              None \<Rightarrow> Inl TypeError
            | Some cl \<Rightarrow>
                if isFlagged cl \<or> isRevealed cl then Inr g
                else if isFirstClick g
                then (case placeMines (g\<lparr>isFirstClick := False\<rparr>) r c draws of
                        Inl e \<Rightarrow> Inl e
                      | Inr g1 \<Rightarrow> revealCell (startTimer g1) r c False)
                else revealCell g r c False))"

definition handleRightClick :: "game \<Rightarrow> int \<Rightarrow> int \<Rightarrow> error + game" where
  "handleRightClick g r c =
     (if isGameOver g then Inr g
      else (case cellAt (board g) r c of
              None \<Rightarrow> Inl TypeError
            | Some cl \<Rightarrow>
                if isRevealed cl then Inr g
                else Inr (g\<lparr>board := updCell (board g) r c (\<lambda>x. x\<lparr>isFlagged := \<not> isFlagged x\<rparr>),
                           minesLeft := minesLeft g + (if \<not> isFlagged cl then - 1 else 1)\<rparr>)))"

definition newGame :: "game \<Rightarrow> game" where
  "newGame g =
     initBoard ((stopTimer g)\<lparr>timer := 0, isGameOver := False, isFirstClick := True,
                             minesLeft := int (mines g), revealedCount := 0,
                             totalNonMines := int (rows g) * int (cols g) - int (mines g),
                             faceElement := Smile\<rparr>)"

fun difficulties :: "difficulty \<Rightarrow> nat \<times> nat \<times> nat" where
  "difficulties Easy = (9, 9, 10)"
| "difficulties Medium = (16, 16, 40)"
| "difficulties Hard = (16, 30, 99)"

definition setDifficulty :: "game \<Rightarrow> difficulty \<Rightarrow> game" where
  "setDifficulty g d =
     (case difficulties d of
        (nr, nc, nm) \<Rightarrow> newGame (g\<lparr>rows := nr, cols := nc, mines := nm\<rparr>))"

text \<open>The field initialisers of the class followed by the \<^verbatim>\<open>newGame()\<close> call that ends the
  constructor.\<close>

definition constructed :: game where
  "constructed =
     newGame \<lparr>board = [], boardGen = 0, rows = 9, cols = 9, mines = 10, minesLeft = 10,
              isGameOver = False, isFirstClick = True, timer = 0, timerInterval = None,
              intervals = [], nextHandle = 1, revealedCount = 0, totalNonMines = 0,
              faceElement = Smile, pending = []\<rparr>"

section \<open>Deferred callbacks\<close>

definition fireTask :: "game \<Rightarrow> task \<Rightarrow> error + game" where
  "fireTask g t =
     (case t of
        ChainReveal r c \<Rightarrow> revealCell g r c True
      | MineShow gen r c \<Rightarrow>
          if gen = boardGen g
          then Inr (g\<lparr>board := updCell (board g) r c (\<lambda>x. x\<lparr>isRevealed := True\<rparr>)\<rparr>)
          else Inr g)"

text \<open>
  The browser runs the \<open>i\<close>-th outstanding timeout: it leaves the queue and its callback
  runs; an exception thrown by the callback ends that callback only (on a board built by
  \<^verbatim>\<open>initBoard\<close> the only one is the failed lookup that opens \<^verbatim>\<open>revealCell\<close>, before any
  assignment). The delays (\<^verbatim>\<open>index * 20\<close>, \<^verbatim>\<open>delay += 50\<close>) are not modelled: any
  outstanding timeout may be the next, which covers the order the browser chooses.
\<close>

definition fire :: "nat \<Rightarrow> game \<Rightarrow> game" where
  "fire i g =
     (if i < length (pending g)
      then (let g' = g\<lparr>pending := take i (pending g) @ drop (Suc i) (pending g)\<rparr>
            in case fireTask g' (pending g ! i) of Inl e \<Rightarrow> g' | Inr g'' \<Rightarrow> g'')
      else g)"

fun run :: "nat list \<Rightarrow> game \<Rightarrow> game" where
  "run [] g = g"
| "run (i # is) g = run is (fire i g)"

section \<open>Notions used to state the properties\<close>

definition wf_board :: "nat \<Rightarrow> nat \<Rightarrow> board \<Rightarrow> bool" where
  "wf_board nr nc b \<longleftrightarrow>
     length b = nr \<and> list_all (\<lambda>rw. length rw = nc) b \<and>
     list_all (\<lambda>(r, c). case cellAt b r c of None \<Rightarrow> False
                          | Some cl \<Rightarrow> row cl = r \<and> col cl = c) (allCoords nr nc)"

definition countCells :: "(cell \<Rightarrow> bool) \<Rightarrow> board \<Rightarrow> nat" where
  "countCells P b = length (filter P (concat b))"

definition isMineAt :: "board \<Rightarrow> int \<Rightarrow> int \<Rightarrow> bool" where
  "isMineAt b r c = (case cellAt b r c of None \<Rightarrow> False | Some cl \<Rightarrow> isMine cl)"

definition mineNeighbours :: "nat \<Rightarrow> nat \<Rightarrow> board \<Rightarrow> int \<Rightarrow> int \<Rightarrow> nat" where
  "mineNeighbours nr nc b r c = length (filter (\<lambda>(r', c'). isMineAt b r' c') (neighbours nr nc r c))"

definition mooreMines :: "nat \<Rightarrow> nat \<Rightarrow> board \<Rightarrow> int \<Rightarrow> int \<Rightarrow> (int \<times> int) set" where
  "mooreMines nr nc b r c =
     {(r', c'). 0 \<le> r' \<and> r' < int nr \<and> 0 \<le> c' \<and> c' < int nc \<and>
                \<bar>r' - r\<bar> \<le> 1 \<and> \<bar>c' - c\<bar> \<le> 1 \<and> (r', c') \<noteq> (r, c) \<and> isMineAt b r' c'}"

definition wf_game :: "game \<Rightarrow> bool" where
  "wf_game g = wf_board (rows g) (cols g) (board g)"

text \<open>Two boards that differ at most in the \<^verbatim>\<open>adjacentMines\<close> fields.\<close>

definition calcFrame :: "board \<Rightarrow> board \<Rightarrow> bool" where
  "calcFrame b b' \<longleftrightarrow>
     (\<forall>r c. map_option (\<lambda>x. x\<lparr>adjacentMines := 0\<rparr>) (cellAt b' r c) =
            map_option (\<lambda>x. x\<lparr>adjacentMines := 0\<rparr>) (cellAt b r c))"

text \<open>Two games that differ at most in their boards.\<close>

definition sameButBoard :: "game \<Rightarrow> game \<Rightarrow> bool" where
  "sameButBoard g g' \<longleftrightarrow> g'\<lparr>board := board g\<rparr> = g"

text \<open>A cell whose count is right stays right; a visited cell has the right count.\<close>

definition countOk :: "game \<Rightarrow> int \<Rightarrow> int \<Rightarrow> bool" where
  "countOk g r c \<longleftrightarrow>
     (case cellAt (board g) r c of
        None \<Rightarrow> True
      | Some cl \<Rightarrow> isMine cl \<or> adjacentMines cl = mineNeighbours (rows g) (cols g) (board g) r c)"

definition chainTasks :: "game \<Rightarrow> int \<Rightarrow> int \<Rightarrow> task list" where
  "chainTasks g r c = map (\<lambda>(r', c'). ChainReveal r' c') (neighbours (rows g) (cols g) r c)"

definition mineTasks :: "game \<Rightarrow> task list" where
  "mineTasks g =
     map (\<lambda>(r, c). MineShow (boardGen g) r c)
       (filter (\<lambda>(r, c). isMineAt (board g) r c) (allCoords (rows g) (cols g)))"

text \<open>The state \<^verbatim>\<open>revealCell\<close> reaches on a well-formed board, without the error cases.\<close>

definition revealed :: "game \<Rightarrow> int \<Rightarrow> int \<Rightarrow> cell \<Rightarrow> game" where
  "revealed g r c cl =
     (if isRevealed cl \<or> isFlagged cl then g
      else
        (let g1 = g\<lparr>board := updCell (board g) r c (\<lambda>x. x\<lparr>isRevealed := True\<rparr>),
                   revealedCount := revealedCount g + 1\<rparr>
         in if isMine cl
            then (stopTimer (g1\<lparr>isGameOver := True\<rparr>))
                   \<lparr>faceElement := Dizzy, pending := pending g1 @ mineTasks g1\<rparr>
            else
              (let g2 = (if adjacentMines cl = 0
                         then g1\<lparr>pending := pending g1 @ chainTasks g r c\<rparr> else g1)
               in if int (revealedCount g2) = totalNonMines g2 then win g2 else g2)))"

definition isRevealedAt :: "board \<Rightarrow> int \<Rightarrow> int \<Rightarrow> bool" where
  "isRevealedAt b r c = (case cellAt b r c of None \<Rightarrow> False | Some cl \<Rightarrow> isRevealed cl)"

definition isFlaggedAt :: "board \<Rightarrow> int \<Rightarrow> int \<Rightarrow> bool" where
  "isFlaggedAt b r c = (case cellAt b r c of None \<Rightarrow> False | Some cl \<Rightarrow> isFlagged cl)"

text \<open>A cell that is not a mine and whose stored count is zero: revealing it starts or
  continues a cascade.\<close>

definition zeroAt :: "board \<Rightarrow> int \<Rightarrow> int \<Rightarrow> bool" where
  "zeroAt b r c = (case cellAt b r c of None \<Rightarrow> False
                   | Some cl \<Rightarrow> \<not> isMine cl \<and> adjacentMines cl = 0)"

text \<open>Two boards that differ at most in that cells of the second are revealed which are
  not in the first.\<close>

definition revFrame :: "board \<Rightarrow> board \<Rightarrow> bool" where
  "revFrame b b' \<longleftrightarrow>
     (\<forall>r c. map_option (\<lambda>x. x\<lparr>isRevealed := True\<rparr>) (cellAt b' r c) =
            map_option (\<lambda>x. x\<lparr>isRevealed := True\<rparr>) (cellAt b r c) \<and>
            (isRevealedAt b r c \<longrightarrow> isRevealedAt b' r c))"

text \<open>The game with its \<open>i\<close>-th outstanding timeout taken off the queue.\<close>

definition dequeue :: "nat \<Rightarrow> game \<Rightarrow> game" where
  "dequeue i g = g\<lparr>pending := take i (pending g) @ drop (Suc i) (pending g)\<rparr>"

definition won :: "game \<Rightarrow> bool" where
  "won g \<longleftrightarrow> isGameOver g \<and> faceElement g = Cool"

definition lost :: "game \<Rightarrow> bool" where
  "lost g \<longleftrightarrow> isGameOver g \<and> faceElement g = Dizzy"

definition unrevealedCount :: "game \<Rightarrow> nat" where
  "unrevealedCount g = countCells (\<lambda>cl. \<not> isRevealed cl) (board g)"

text \<open>One firing of an outstanding timeout, as a relation from the state after to the state
  before.\<close>

definition fireRel :: "(game \<times> game) set" where
  "fireRel = {(g', g). \<exists>i < length (pending g). g' = fire i g}"

text \<open>The cell is displayed as revealed, or the timeout that will do so is outstanding.\<close>

definition mineShown :: "game \<Rightarrow> int \<Rightarrow> int \<Rightarrow> bool" where
  "mineShown g r c \<longleftrightarrow>
     isRevealedAt (board g) r c \<or> MineShow (boardGen g) r c \<in> set (pending g)"

text \<open>Every cell of the board that is not a mine stores the number of mines around it, as
  \<^verbatim>\<open>calculateAdjacentMines\<close> leaves it.\<close>

definition consistent :: "game \<Rightarrow> bool" where
  "consistent g = list_all (\<lambda>(r, c). countOk g r c) (allCoords (rows g) (cols g))"

text \<open>Every outstanding timeout is a cascade step, and none of them aims at a mine.\<close>

definition cascadeOnly :: "game \<Rightarrow> bool" where
  "cascadeOnly g =
     list_all (\<lambda>t. case t of ChainReveal r c \<Rightarrow> \<not> isMineAt (board g) r c
                             | MineShow gen r c \<Rightarrow> False) (pending g)"

text \<open>
  The cells a cascade started at \<open>(r0, c0)\<close> in game \<open>g\<close> can reach: the start, and every
  unflagged, unrevealed neighbour of a reached cell that is not a mine and has count zero.
\<close>

inductive cascadeRegion :: "game \<Rightarrow> int \<Rightarrow> int \<Rightarrow> int \<Rightarrow> int \<Rightarrow> bool"
  for g :: game and r0 :: int and c0 :: int where
  start: "cascadeRegion g r0 c0 r0 c0"
| step: "cascadeRegion g r0 c0 r c \<Longrightarrow> zeroAt (board g) r c \<Longrightarrow>
         (r', c') \<in> set (neighbours (rows g) (cols g) r c) \<Longrightarrow>
         \<not> isFlaggedAt (board g) r' c' \<Longrightarrow> \<not> isRevealedAt (board g) r' c' \<Longrightarrow>
         cascadeRegion g r0 c0 r' c'"

code_pred cascadeRegion .

definition cascInv :: "game \<Rightarrow> int \<Rightarrow> int \<Rightarrow> game \<Rightarrow> bool" where
  "cascInv g r0 c0 g' \<longleftrightarrow>
     wf_game g' \<and> consistent g' \<and> cascadeOnly g' \<and>
     rows g' = rows g \<and> cols g' = cols g \<and> revFrame (board g) (board g') \<and>
     isRevealedAt (board g') r0 c0 \<and>
     (\<forall>r c. isRevealedAt (board g') r c \<and> \<not> isRevealedAt (board g) r c
        \<longrightarrow> cascadeRegion g r0 c0 r c) \<and>
     (\<forall>r c. ChainReveal r c \<in> set (pending g') \<longrightarrow>
        (\<exists>r1 c1. cascadeRegion g r0 c0 r1 c1 \<and> zeroAt (board g) r1 c1 \<and>
                 (r, c) \<in> set (neighbours (rows g) (cols g) r1 c1))) \<and>
     revealedCount g' + countCells isRevealed (board g) =
       revealedCount g + countCells isRevealed (board g') \<and>
     (\<forall>r c r' c'. cascadeRegion g r0 c0 r c \<and> isRevealedAt (board g') r c \<and>
          zeroAt (board g) r c \<and> (r', c') \<in> set (neighbours (rows g) (cols g) r c)
        \<longrightarrow> isRevealedAt (board g') r' c' \<or> isFlaggedAt (board g) r' c' \<or>
            ChainReveal r' c' \<in> set (pending g'))"

text \<open>The cells of a list on which the placement loop would put a mine.\<close>

definition eligible :: "game \<Rightarrow> cell list \<Rightarrow> (int \<times> int) list \<Rightarrow> (int \<times> int) list" where
  "eligible g ez ps =
     filter (\<lambda>(r, c). \<not> isMineAt (board g) r c \<and> \<not> list_ex (\<lambda>e. row e = r \<and> col e = c) ez) ps"

section \<open>Events and reachable states\<close>

text \<open>
  What can happen to a constructed game: the input handlers run, with the random pairs a
  first click consumes; the controller buttons; a firing of the interval registered under a
  handle; a firing of the \<open>i\<close>-th outstanding timeout; the mouse handlers that change the
  face. A handler that throws or does not return leaves no successor state: such an event is
  skipped.
\<close>

datatype event =
  Click int int "(int \<times> int) list"
| RightClick int int
| NewGameButton
| DifficultyButton difficulty
| IntervalFires nat
| TimeoutFires nat
| MouseDown
| MouseUp

definition step :: "game \<Rightarrow> event \<Rightarrow> game" where
  "step g e =
     (case e of
        Click r c draws \<Rightarrow> (case handleClick g r c draws of Inl err \<Rightarrow> g | Inr g' \<Rightarrow> g')
      | RightClick r c \<Rightarrow> (case handleRightClick g r c of Inl err \<Rightarrow> g | Inr g' \<Rightarrow> g')
      | NewGameButton \<Rightarrow> newGame g
      | DifficultyButton d \<Rightarrow> setDifficulty g d
      | IntervalFires h \<Rightarrow> tick h g
      | TimeoutFires i \<Rightarrow> fire i g
      | MouseDown \<Rightarrow> (if \<not> isGameOver g then g\<lparr>faceElement := Surprised\<rparr> else g)
      | MouseUp \<Rightarrow> (if \<not> isGameOver g then g\<lparr>faceElement := Smile\<rparr> else g))"

fun exec :: "event list \<Rightarrow> game \<Rightarrow> game" where
  "exec [] g = g"
| "exec (e # es) g = exec es (step g e)"

text \<open>What holds in every state a constructed game reaches.\<close>

definition timerInv :: "game \<Rightarrow> bool" where
  "timerInv g \<longleftrightarrow>
     wf_game g \<and> timer g \<le> 999 \<and> (isFirstClick g \<longrightarrow> timer g = 0) \<and>
     intervals g = (case timerInterval g of None \<Rightarrow> [] | Some h \<Rightarrow> [h]) \<and>
     (\<forall>h. timerInterval g = Some h \<longrightarrow> 0 < h) \<and> 0 < nextHandle g \<and>
     (timerInterval g \<noteq> None \<longleftrightarrow> \<not> isFirstClick g \<and> \<not> isGameOver g) \<and>
     totalNonMines g = int (rows g) * int (cols g) - int (mines g)"

section \<open>Example games\<close>

text \<open>A first click on the easy board: the random pairs of one run, the state in which
  \<^verbatim>\<open>handleClick\<close> calls \<^verbatim>\<open>placeMines\<close>, and a board with ten mines (the first ten distinct
  pairs) whose counts are not computed yet.\<close>

definition exampleDraws :: "(int \<times> int) list" where
  "exampleDraws = [(0, 1), (1, 0), (1, 1), (4, 4), (0, 1), (3, 5), (0, 2), (0, 3), (0, 4),
                   (0, 5), (0, 6), (0, 7), (0, 8)]"

definition exampleStart :: game where
  "exampleStart = constructed\<lparr>isFirstClick := False\<rparr>"

definition exampleMined :: game where
  "exampleMined = projr (placeLoop exampleStart [] 0 exampleDraws)"

text \<open>States of the easy game used as examples: one flag set before the first click; after a
  first click at (4, 4); after a second click on the mine at (0, 1); ten flags set.\<close>

definition exampleFlagged :: game where
  "exampleFlagged = projr (handleRightClick constructed 2 3)"

definition exampleClicked :: game where
  "exampleClicked = projr (handleClick constructed 4 4 exampleDraws)"

definition exampleLost :: game where
  "exampleLost = projr (handleClick exampleClicked 0 1 [])"

fun flagRow :: "game \<Rightarrow> int list \<Rightarrow> game" where
  "flagRow g [] = g"
| "flagRow g (c # cs) = flagRow (projr (handleRightClick g 0 c)) cs"

definition exampleTenFlags :: game where
  "exampleTenFlags = flagRow (projr (handleRightClick constructed 1 0)) [0, 1, 2, 3, 4, 5, 6, 7, 8]"

text \<open>The easy game between the mine placement of the first click and its reveal.\<close>

definition examplePlaced :: game where
  "examplePlaced = projr (placeMines exampleStart 4 4 exampleDraws)"

text \<open>The easy game with a flag set at (4, 5) before the first click, random pairs that put
  mines around the block of the first click, and the state after the first click at (4, 4)
  once the eight timeouts of its cascade have run.\<close>

definition exampleFlagStart :: game where
  "exampleFlagStart = projr (handleRightClick constructed 4 5)"

definition exampleTightDraws :: "(int \<times> int) list" where
  "exampleTightDraws = [(2, 3), (2, 5), (6, 3), (4, 4), (6, 5), (4, 2), (4, 6), (0, 0), (2, 3),
                        (0, 1), (0, 2), (0, 3)]"

definition exampleFlagCascade :: game where
  "exampleFlagCascade =
     run (replicate 8 0) (projr (handleClick exampleFlagStart 4 4 exampleTightDraws))"

text \<open>Random pairs for a later first click at (0, 0): a mine at (3, 3) and nine in row 8.\<close>

definition exampleSecondDraws :: "(int \<times> int) list" where
  "exampleSecondDraws = [(3, 3), (8, 0), (8, 1), (0, 1), (8, 2), (8, 3), (8, 4), (8, 5), (8, 6),
                         (8, 7), (8, 8)]"

text \<open>The easy game in which the mine at (0, 1) was clicked while the cascade of the first
  click at (4, 4) was outstanding (\<open>exampleLost\<close>), after the 426 timeouts then outstanding
  or queued later have fired, oldest first.\<close>

definition exampleWonAfterLoss :: game where
  "exampleWonAfterLoss = run (replicate 426 0) exampleLost"

text \<open>What the face, the counter and the preset of a game show, the number of its revealed
  cells that are not mines, and the number of its outstanding timeouts.\<close>

definition outcome ::
  "game \<Rightarrow> bool \<times> face \<times> nat \<times> int \<times> nat \<times> nat \<times> nat \<times> nat \<times> nat" where
  "outcome g =
     (isGameOver g, faceElement g, revealedCount g, totalNonMines g, rows g, cols g, mines g,
      countCells (\<lambda>cl. isRevealed cl \<and> \<not> isMine cl) (board g), length (pending g))"

section \<open>Facts about board access\<close>

lemma set_allCoords: "set (allCoords nr nc) = {(r, c). 0 \<le> r \<and> r < int nr \<and> 0 \<le> c \<and> c < int nc}"
proof -
  have "\<And>r c. 0 \<le> r \<Longrightarrow> r < int nr \<Longrightarrow> 0 \<le> c \<Longrightarrow> c < int nc
      \<Longrightarrow> \<exists>x\<in>{0..<nr}. (r, c) \<in> (\<lambda>c. (int x, int c)) ` {0..<nc}"
    by (rule_tac x = "nat r" in bexI) (auto simp: image_iff intro: bexI [of _ "nat c" for c])
  then show ?thesis by (auto simp: allCoords_def)
qed

lemma cellAt_Some_range:
  "cellAt b r c = Some cl \<Longrightarrow> 0 \<le> r \<and> r < int (length b) \<and> 0 \<le> c \<and> c < int (length (b ! nat r))"
  by (auto simp: cellAt_def split: if_splits)

lemma wf_board_cellAt:
  assumes "wf_board nr nc b"
  shows "(\<exists>cl. cellAt b r c = Some cl) \<longleftrightarrow> 0 \<le> r \<and> r < int nr \<and> 0 \<le> c \<and> c < int nc"
proof
  assume "\<exists>cl. cellAt b r c = Some cl"
  then obtain cl where "cellAt b r c = Some cl" ..
  from cellAt_Some_range [OF this] assms show "0 \<le> r \<and> r < int nr \<and> 0 \<le> c \<and> c < int nc"
    by (auto simp: wf_board_def list_all_iff)
next
  assume "0 \<le> r \<and> r < int nr \<and> 0 \<le> c \<and> c < int nc"
  then have "(r, c) \<in> set (allCoords nr nc)" by (simp add: set_allCoords)
  with assms show "\<exists>cl. cellAt b r c = Some cl"
    by (auto simp: wf_board_def list_all_iff split: option.splits)
qed

lemma wf_board_fields:
  assumes "wf_board nr nc b" "cellAt b r c = Some cl"
  shows "row cl = r \<and> col cl = c"
proof -
  from assms wf_board_cellAt [OF assms(1), of r c] have "(r, c) \<in> set (allCoords nr nc)"
    by (simp add: set_allCoords)
  with assms show ?thesis by (auto simp: wf_board_def list_all_iff)
qed

lemma length_updCell [simp]: "length (updCell b r c f) = length b"
  by (simp add: updCell_def split: option.splits)

lemma length_row_updCell [simp]: "length (updCell b r c f ! i) = length (b ! i)"
  by (cases "i < length b") (auto simp: updCell_def cellAt_def nth_list_update split: option.splits if_splits)

lemma cellAt_updCell:
  "cellAt (updCell b r c f) r' c' =
     (if r' = r \<and> c' = c then map_option f (cellAt b r c) else cellAt b r' c')"
proof (cases "cellAt b r c")
  case None
  then show ?thesis by (simp add: updCell_def)
next
  case (Some cl)
  note rng = cellAt_Some_range [OF Some]
  have eq: "updCell b r c f = b[nat r := (b ! nat r)[nat c := f cl]]"
    using Some by (simp add: updCell_def)
  show ?thesis
  proof (cases "r' = r \<and> c' = c")
    case True
    have "nat r < length b" "nat c < length (b ! nat r)" using rng by auto
    with True Some rng show ?thesis by (simp add: eq cellAt_def)
  next
    case False
    show ?thesis
    proof (cases "0 \<le> r' \<and> r' < int (length b)")
      case inr: True
      show ?thesis
      proof (cases "r' = r")
        case True
        with False have "c' \<noteq> c" by simp
        then have "0 \<le> c' \<Longrightarrow> nat c' \<noteq> nat c" using rng by auto
        with True rng \<open>c' \<noteq> c\<close> show ?thesis by (auto simp: eq cellAt_def)
      next
        case False
        then have "nat r' \<noteq> nat r" using inr rng by auto
        with False show ?thesis by (simp add: eq cellAt_def)
      qed
    next
      case False
      then show ?thesis using \<open>\<not> (r' = r \<and> c' = c)\<close> by (auto simp: eq cellAt_def)
    qed
  qed
qed

lemma list_all_length_updCell:
  "list_all (\<lambda>rw. length rw = nc) (updCell b r c f) = list_all (\<lambda>rw. length rw = nc) b"
  by (simp add: list_all_length)

lemma wf_board_updCell:
  assumes "wf_board nr nc b" "\<And>x. row (f x) = row x \<and> col (f x) = col x"
  shows "wf_board nr nc (updCell b r c f)"
proof -
  have "list_all (\<lambda>(r', c'). case cellAt (updCell b r c f) r' c' of None \<Rightarrow> False
           | Some cl \<Rightarrow> row cl = r' \<and> col cl = c') (allCoords nr nc)"
    using assms by (auto simp: wf_board_def cellAt_updCell list_all_iff split: option.splits)
  with assms(1) show ?thesis
    by (simp add: wf_board_def list_all_length_updCell)
qed

lemma filter_length_update:
  "j < length xs \<Longrightarrow>
   length (filter P (xs[j := y])) + (if P (xs ! j) then 1 else 0) =
   length (filter P xs) + (if P y then 1 else 0)"
proof (induction xs arbitrary: j)
  case Nil
  then show ?case by simp
next
  case (Cons x xs)
  show ?case
  proof (cases j)
    case 0
    then show ?thesis by simp
  next
    case (Suc k)
    with Cons.prems have "k < length xs" by simp
    from Cons.IH [OF this] Suc show ?thesis by (cases "P x") auto
  qed
qed

lemma countCells_update:
  "i < length b \<Longrightarrow>
   countCells P (b[i := rw]) + length (filter P (b ! i)) = countCells P b + length (filter P rw)"
  unfolding countCells_def
proof (induction b arbitrary: i)
  case Nil
  then show ?case by simp
next
  case (Cons x b)
  show ?case
  proof (cases i)
    case 0
    then show ?thesis by simp
  next
    case (Suc k)
    with Cons.prems have "k < length b" by simp
    from Cons.IH [OF this] Suc show ?thesis by simp
  qed
qed

lemma countCells_updCell:
  assumes "cellAt b r c = Some cl"
  shows "countCells P (updCell b r c f) + (if P cl then 1 else 0) =
         countCells P b + (if P (f cl) then 1 else 0)"
proof -
  note rng = cellAt_Some_range [OF assms]
  have cl: "cl = b ! nat r ! nat c" using assms by (auto simp: cellAt_def split: if_splits)
  have eq: "updCell b r c f = b[nat r := (b ! nat r)[nat c := f cl]]"
    using assms by (simp add: updCell_def)
  have 1: "countCells P (updCell b r c f) + length (filter P (b ! nat r)) =
      countCells P b + length (filter P ((b ! nat r)[nat c := f cl]))"
    unfolding eq using rng by (intro countCells_update) auto
  have 2: "length (filter P ((b ! nat r)[nat c := f cl])) + (if P cl then 1 else 0) =
      length (filter P (b ! nat r)) + (if P (f cl) then 1 else 0)"
    unfolding cl using rng by (intro filter_length_update) auto
  from 1 2 show ?thesis by arith
qed

lemma sameButBoard_refl [simp]: "sameButBoard g g"
  by (simp add: sameButBoard_def)

lemma sameButBoard_upd [simp]: "sameButBoard g (g\<lparr>board := b\<rparr>)"
  by (simp add: sameButBoard_def)

lemma sameButBoard_eq: "sameButBoard g g' \<Longrightarrow> g' = g\<lparr>board := board g'\<rparr>"
  unfolding sameButBoard_def by (cases g, cases g') simp

lemma sameButBoard_trans: "sameButBoard a b \<Longrightarrow> sameButBoard b c \<Longrightarrow> sameButBoard a c"
  unfolding sameButBoard_def by (cases a, cases b, cases c) simp

lemma sameButBoard_fields:
  assumes "sameButBoard g g'"
  shows "rows g' = rows g" "cols g' = cols g" "mines g' = mines g"
    "revealedCount g' = revealedCount g" "totalNonMines g' = totalNonMines g"
    "isGameOver g' = isGameOver g" "pending g' = pending g"
    "faceElement g' = faceElement g" "boardGen g' = boardGen g"
  using assms unfolding sameButBoard_def by (cases g, cases g', simp)+

section \<open>Neighbourhoods\<close>

lemma near_iff: "\<bar>r' - r\<bar> \<le> 1 \<longleftrightarrow> r' = r - 1 \<or> r' = r \<or> r' = r + (1::int)"
  by arith

lemma mem_neighbours:
  "(r', c') \<in> set (neighbours nr nc r c) \<longleftrightarrow>
     0 \<le> r' \<and> r' < int nr \<and> 0 \<le> c' \<and> c' < int nc \<and>
     \<bar>r' - r\<bar> \<le> 1 \<and> \<bar>c' - c\<bar> \<le> 1 \<and> (r', c') \<noteq> (r, c)"
  unfolding neighbours_def near_iff set_filter by (simp; blast)

lemma distinct_neighbours: "distinct (neighbours nr nc r c)"
  unfolding neighbours_def by (intro distinct_filter) simp

lemma length_neighbours: "length (neighbours nr nc r c) \<le> 8"
proof -
  have "length (neighbours nr nc r c) =
        length (filter (\<lambda>(r', c'). r' \<ge> 0 \<and> r' < int nr \<and> c' \<ge> 0 \<and> c' < int nc \<and> \<not> (r' = r \<and> c' = c))
          [(r - 1, c - 1), (r - 1, c), (r - 1, c + 1), (r, c - 1)]) +
        length (filter (\<lambda>(r', c'). r' \<ge> 0 \<and> r' < int nr \<and> c' \<ge> 0 \<and> c' < int nc \<and> \<not> (r' = r \<and> c' = c))
          [(r, c + 1), (r + 1, c - 1), (r + 1, c), (r + 1, c + 1)])"
    unfolding neighbours_def by simp
  also have "\<dots> \<le> 4 + 4"
    by (intro add_mono order_trans [OF length_filter_le]) simp_all
  finally show ?thesis by simp
qed

lemma mineNeighbours_le: "mineNeighbours nr nc b r c \<le> 8"
  unfolding mineNeighbours_def
  by (rule order_trans [OF length_filter_le length_neighbours])

lemma mineNeighbours_card: "mineNeighbours nr nc b r c = card (mooreMines nr nc b r c)"
proof -
  have "mooreMines nr nc b r c = set (filter (\<lambda>(r', c'). isMineAt b r' c') (neighbours nr nc r c))"
    unfolding mooreMines_def set_filter using mem_neighbours [of _ _ nr nc r c] by auto
  then show ?thesis
    unfolding mineNeighbours_def
    by (simp add: distinct_card distinct_neighbours del: set_filter)
qed

lemma cellsAt_Some:
  "cellsAt b ps = Some cls \<Longrightarrow> map Some cls = map (\<lambda>(r, c). cellAt b r c) ps"
  by (induction ps arbitrary: cls) (auto split: option.splits)

lemma cellsAt_defined:
  "(\<And>r c. (r, c) \<in> set ps \<Longrightarrow> cellAt b r c \<noteq> None) \<Longrightarrow> \<exists>cls. cellsAt b ps = Some cls"
  by (induction ps) (auto split: option.splits)

lemma cellsAt_count:
  "cellsAt b ps = Some cls \<Longrightarrow>
   length (filter isMine cls) = length (filter (\<lambda>(r, c). isMineAt b r c) ps)"
  by (induction ps arbitrary: cls) (auto simp: isMineAt_def split: option.splits)

lemma getAdjacentCells_count:
  "getAdjacentCells g r c = Inr adj \<Longrightarrow>
   length (filter isMine adj) = mineNeighbours (rows g) (cols g) (board g) r c"
  by (auto simp: getAdjacentCells_def mineNeighbours_def cellsAt_count split: option.splits)

lemma wf_getAdjacentCells:
  assumes "wf_game g"
  shows "\<exists>adj. getAdjacentCells g r c = Inr adj"
proof -
  have "\<exists>cls. cellsAt (board g) (neighbours (rows g) (cols g) r c) = Some cls"
  proof (rule cellsAt_defined)
    fix r' c' assume "(r', c') \<in> set (neighbours (rows g) (cols g) r c)"
    then have "0 \<le> r' \<and> r' < int (rows g) \<and> 0 \<le> c' \<and> c' < int (cols g)"
      by (simp add: mem_neighbours)
    with wf_board_cellAt [OF assms [unfolded wf_game_def], of r' c']
    show "cellAt (board g) r' c' \<noteq> None" by auto
  qed
  then show ?thesis
    by (auto simp: getAdjacentCells_def)
qed

section \<open>The adjacency counts of a whole board\<close>

lemma calcFrame_refl [simp]: "calcFrame b b"
  by (simp add: calcFrame_def)

lemma calcFrame_trans: "calcFrame a b \<Longrightarrow> calcFrame b c \<Longrightarrow> calcFrame a c"
  by (simp add: calcFrame_def)

lemma calcFrame_updCell: "calcFrame b (updCell b r c (\<lambda>x. x\<lparr>adjacentMines := n\<rparr>))"
  by (auto simp: calcFrame_def cellAt_updCell option.map_comp comp_def)

lemma calcFrame_cell:
  assumes "calcFrame b b'" "cellAt b' r c = Some cl'"
  obtains cl where "cellAt b r c = Some cl" "cl' = cl\<lparr>adjacentMines := adjacentMines cl'\<rparr>"
proof -
  from assms(1) have "map_option (\<lambda>x. x\<lparr>adjacentMines := 0\<rparr>) (cellAt b' r c) =
      map_option (\<lambda>x. x\<lparr>adjacentMines := 0\<rparr>) (cellAt b r c)"
    unfolding calcFrame_def by blast
  with assms(2) have *: "map_option (\<lambda>x. x\<lparr>adjacentMines := 0\<rparr>) (cellAt b r c) = Some (cl'\<lparr>adjacentMines := 0\<rparr>)"
    by simp
  then obtain cl where cl: "cellAt b r c = Some cl" "cl\<lparr>adjacentMines := 0\<rparr> = cl'\<lparr>adjacentMines := 0\<rparr>"
    by auto
  from cl(2) have "cl' = cl\<lparr>adjacentMines := adjacentMines cl'\<rparr>"
    by (cases cl, cases cl') simp
  with cl(1) show ?thesis by (rule that)
qed

lemma calcFrame_isMineAt: "calcFrame b b' \<Longrightarrow> isMineAt b' r c = isMineAt b r c"
proof -
  assume a: "calcFrame b b'"
  have "map_option isMine (cellAt b' r c) = map_option isMine (cellAt b r c)"
  proof -
    have "map_option isMine (cellAt b' r c) =
          map_option isMine (map_option (\<lambda>x. x\<lparr>adjacentMines := 0\<rparr>) (cellAt b' r c))"
      by (simp add: option.map_comp comp_def)
    also have "\<dots> = map_option isMine (map_option (\<lambda>x. x\<lparr>adjacentMines := 0\<rparr>) (cellAt b r c))"
      using a by (simp add: calcFrame_def)
    also have "\<dots> = map_option isMine (cellAt b r c)"
      by (simp add: option.map_comp comp_def)
    finally show ?thesis .
  qed
  then show ?thesis by (auto simp: isMineAt_def split: option.splits)
qed

lemma calcFrame_mineNeighbours:
  "calcFrame b b' \<Longrightarrow> mineNeighbours nr nc b' r c = mineNeighbours nr nc b r c"
  by (simp add: mineNeighbours_def calcFrame_isMineAt)

lemma calcCells_frame:
  "calcCells g ps = Inr g' \<Longrightarrow> sameButBoard g g' \<and> calcFrame (board g) (board g')"
proof (induction g ps rule: calcCells.induct)
  case (1 g)
  then show ?case by simp
next
  case (2 g r c ps)
  from "2.prems" obtain cl where cl: "cellAt (board g) r c = Some cl"
    by (auto split: option.splits)
  show ?case
  proof (cases "isMine cl")
    case True
    with "2.prems" cl have "calcCells g ps = Inr g'" by simp
    from "2.IH"(2) [OF cl _ this] True show ?thesis by simp
  next
    case False
    with "2.prems" cl obtain adj where adj: "getAdjacentCells g r c = Inr adj"
      by (auto split: sum.splits)
    let ?g1 = "g\<lparr>board := updCell (board g) r c (\<lambda>x. x\<lparr>adjacentMines := length (filter isMine adj)\<rparr>)\<rparr>"
    from "2.prems" cl False adj have run: "calcCells ?g1 ps = Inr g'" by simp
    from "2.IH"(1) [OF cl _ adj run] False
    have "sameButBoard ?g1 g'" "calcFrame (board ?g1) (board g')" by simp_all
    moreover have "calcFrame (board g) (board ?g1)" by (simp add: calcFrame_updCell)
    moreover have "sameButBoard g ?g1" by simp
    ultimately show ?thesis by (blast intro: calcFrame_trans sameButBoard_trans)
  qed
qed

lemma calcCells_wf:
  "calcCells g ps = Inr g' \<Longrightarrow> wf_game g \<Longrightarrow> wf_game g'"
proof (induction g ps rule: calcCells.induct)
  case (1 g)
  then show ?case by simp
next
  case (2 g r c ps)
  from "2.prems" obtain cl where cl: "cellAt (board g) r c = Some cl"
    by (auto split: option.splits)
  show ?case
  proof (cases "isMine cl")
    case True
    with "2.prems" cl have "calcCells g ps = Inr g'" by simp
    from "2.IH"(2) [OF cl _ this] True "2.prems" show ?thesis by simp
  next
    case False
    with "2.prems" cl obtain adj where adj: "getAdjacentCells g r c = Inr adj"
      by (auto split: sum.splits)
    let ?g1 = "g\<lparr>board := updCell (board g) r c (\<lambda>x. x\<lparr>adjacentMines := length (filter isMine adj)\<rparr>)\<rparr>"
    from "2.prems" cl False adj have run: "calcCells ?g1 ps = Inr g'" by simp
    have "wf_game ?g1" using "2.prems"(2) by (simp add: wf_game_def wf_board_updCell)
    from "2.IH"(1) [OF cl _ adj run this] False show ?thesis by simp
  qed
qed

lemma calcCells_count:
  assumes P: "\<And>x n. P (x\<lparr>adjacentMines := n\<rparr>) = P x"
  shows "calcCells g ps = Inr g' \<Longrightarrow> countCells P (board g') = countCells P (board g)"
proof (induction g ps rule: calcCells.induct)
  case (1 g)
  then show ?case by simp
next
  case (2 g r c ps)
  from "2.prems" obtain cl where cl: "cellAt (board g) r c = Some cl"
    by (auto split: option.splits)
  show ?case
  proof (cases "isMine cl")
    case True
    with "2.prems" cl have "calcCells g ps = Inr g'" by simp
    from "2.IH"(2) [OF cl _ this] True show ?thesis by simp
  next
    case False
    with "2.prems" cl obtain adj where adj: "getAdjacentCells g r c = Inr adj"
      by (auto split: sum.splits)
    let ?f = "\<lambda>x. x\<lparr>adjacentMines := length (filter isMine adj)\<rparr>"
    let ?g1 = "g\<lparr>board := updCell (board g) r c ?f\<rparr>"
    from "2.prems" cl False adj have run: "calcCells ?g1 ps = Inr g'" by simp
    from "2.IH"(1) [OF cl _ adj run] False
    have "countCells P (board g') = countCells P (board ?g1)" by simp
    also have "\<dots> = countCells P (board g)"
      using countCells_updCell [OF cl, of P ?f] by (simp add: P)
    finally show ?thesis .
  qed
qed

lemma mineNeighbours_updCell_adjacent:
  "mineNeighbours nr nc (updCell b r c (\<lambda>x. x\<lparr>adjacentMines := n\<rparr>)) r' c' =
   mineNeighbours nr nc b r' c'"
  by (rule calcFrame_mineNeighbours [OF calcFrame_updCell])

lemma calcCells_countOk:
  "calcCells g ps = Inr g' \<Longrightarrow> countOk g r0 c0 \<or> (r0, c0) \<in> set ps \<Longrightarrow> countOk g' r0 c0"
proof (induction g ps rule: calcCells.induct)
  case (1 g)
  then show ?case by simp
next
  case (2 g r c ps)
  from "2.prems" obtain cl where cl: "cellAt (board g) r c = Some cl"
    by (auto split: option.splits)
  show ?case
  proof (cases "isMine cl")
    case True
    with "2.prems" cl have run: "calcCells g ps = Inr g'" by simp
    have "countOk g r0 c0 \<or> (r0, c0) \<in> set ps"
      using "2.prems"(2) True cl by (auto simp: countOk_def)
    from "2.IH"(2) [OF cl _ run this] True show ?thesis by simp
  next
    case False
    with "2.prems" cl obtain adj where adj: "getAdjacentCells g r c = Inr adj"
      by (auto split: sum.splits)
    let ?n = "length (filter isMine adj)"
    let ?g1 = "g\<lparr>board := updCell (board g) r c (\<lambda>x. x\<lparr>adjacentMines := ?n\<rparr>)\<rparr>"
    from "2.prems" cl False adj have run: "calcCells ?g1 ps = Inr g'" by simp
    note mn = mineNeighbours_updCell_adjacent
    have n: "?n = mineNeighbours (rows g) (cols g) (board g) r c"
      by (rule getAdjacentCells_count [OF adj])
    have "countOk ?g1 r0 c0 \<or> (r0, c0) \<in> set ps"
    proof (cases "(r0, c0) = (r, c)")
      case True
      then show ?thesis using cl n by (simp add: countOk_def cellAt_updCell mn)
    next
      case False
      then have "cellAt (updCell (board g) r c (\<lambda>x. x\<lparr>adjacentMines := ?n\<rparr>)) r0 c0 =
                 cellAt (board g) r0 c0"
        by (auto simp: cellAt_updCell)
      then have "countOk ?g1 r0 c0 = countOk g r0 c0"
        by (simp add: countOk_def mn cong: option.case_cong)
      with "2.prems"(2) False show ?thesis by auto
    qed
    from "2.IH"(1) [OF cl _ adj run this] False show ?thesis by simp
  qed
qed

lemma calcCells_defined:
  "wf_game g \<Longrightarrow> (\<And>r c. (r, c) \<in> set ps \<Longrightarrow> cellAt (board g) r c \<noteq> None)
     \<Longrightarrow> \<exists>g'. calcCells g ps = Inr g'"
proof (induction g ps rule: calcCells.induct)
  case (1 g)
  then show ?case by simp
next
  case (2 g r c ps)
  from "2.prems"(2) [of r c] obtain cl where cl: "cellAt (board g) r c = Some cl" by auto
  show ?case
  proof (cases "isMine cl")
    case True
    from "2.IH"(2) [OF cl _ "2.prems"(1)] True "2.prems"(2) cl show ?thesis by simp
  next
    case False
    from wf_getAdjacentCells [OF "2.prems"(1)] obtain adj where adj: "getAdjacentCells g r c = Inr adj"
      by blast
    let ?g1 = "g\<lparr>board := updCell (board g) r c (\<lambda>x. x\<lparr>adjacentMines := length (filter isMine adj)\<rparr>)\<rparr>"
    have wf: "wf_game ?g1" using "2.prems"(1) by (simp add: wf_game_def wf_board_updCell)
    have "\<And>r' c'. (r', c') \<in> set ps \<Longrightarrow> cellAt (board ?g1) r' c' \<noteq> None"
      using "2.prems"(2) by (auto simp: cellAt_updCell)
    from "2.IH"(1) [OF cl _ adj wf this] False cl adj show ?thesis by simp
  qed
qed

lemma calculateAdjacentMines_defined:
  assumes "wf_game g" shows "\<exists>g'. calculateAdjacentMines g = Inr g'"
  unfolding calculateAdjacentMines_def
proof (rule calcCells_defined [OF assms])
  fix r c assume "(r, c) \<in> set (allCoords (rows g) (cols g))"
  with wf_board_cellAt [OF assms [unfolded wf_game_def], of r c]
  show "cellAt (board g) r c \<noteq> None" by (auto simp: set_allCoords)
qed

lemma calculateAdjacentMines_countOk:
  assumes "wf_game g" "calculateAdjacentMines g = Inr g'"
  shows "countOk g' r c"
proof (cases "cellAt (board g') r c")
  case None
  then show ?thesis by (simp add: countOk_def)
next
  case (Some cl)
  from assms have run: "calcCells g (allCoords (rows g) (cols g)) = Inr g'"
    by (simp add: calculateAdjacentMines_def)
  from calcCells_wf [OF run assms(1)] have wf': "wf_game g'" .
  from calcCells_frame [OF run] have dims: "rows g' = rows g" "cols g' = cols g"
    by (simp_all add: sameButBoard_fields)
  from wf_board_cellAt [OF wf' [unfolded wf_game_def], of r c] Some dims
  have "(r, c) \<in> set (allCoords (rows g) (cols g))" by (auto simp: set_allCoords)
  with calcCells_countOk [OF run] show ?thesis by blast
qed

section \<open>The placement loop\<close>

lemma isMineAt_updCell_mine:
  "isMineAt (updCell b r c (\<lambda>x. x\<lparr>isMine := True\<rparr>)) r' c' =
     (if r' = r \<and> c' = c then cellAt b r c \<noteq> None else isMineAt b r' c')"
  by (auto simp: isMineAt_def cellAt_updCell split: option.splits)

lemma placeLoop_inv:
  "placeLoop g ez k ds = Inr g' \<Longrightarrow> wf_game g \<Longrightarrow> k \<le> mines g \<Longrightarrow>
     sameButBoard g g' \<and> wf_game g' \<and>
     countCells isMine (board g') + k = countCells isMine (board g) + mines g \<and>
     (\<forall>r0 c0. list_ex (\<lambda>e. row e = r0 \<and> col e = c0) ez \<longrightarrow>
        isMineAt (board g') r0 c0 = isMineAt (board g) r0 c0)"
proof (induction g ez k ds rule: placeLoop.induct)
  case (1 g ez k)
  then show ?case by (simp split: if_splits)
next
  case (2 g ez k r c ds)
  show ?case
  proof (cases "k < mines g")
    case False
    with "2.prems" show ?thesis by simp
  next
    case lt: True
    with "2.prems" obtain cl where cl: "cellAt (board g) r c = Some cl"
      by (auto split: option.splits)
    show ?thesis
    proof (cases "\<not> isMine cl \<and> \<not> list_ex (\<lambda>e. row e = r \<and> col e = c) ez")
      case True
      let ?g1 = "g\<lparr>board := updCell (board g) r c (\<lambda>x. x\<lparr>isMine := True\<rparr>)\<rparr>"
      from "2.prems"(1) lt cl True have run: "placeLoop ?g1 ez (Suc k) ds = Inr g'" by simp
      have wf1: "wf_game ?g1" using "2.prems"(2) by (simp add: wf_game_def wf_board_updCell)
      have k1: "Suc k \<le> mines ?g1" using lt by simp
      from "2.IH"(1) [OF lt cl True run wf1 k1]
      have ih: "sameButBoard ?g1 g'" "wf_game g'"
        "countCells isMine (board g') + Suc k = countCells isMine (board ?g1) + mines g"
        "\<forall>r0 c0. list_ex (\<lambda>e. row e = r0 \<and> col e = c0) ez \<longrightarrow>
            isMineAt (board g') r0 c0 = isMineAt (board ?g1) r0 c0"
        by simp_all
      have cnt: "countCells isMine (board ?g1) = Suc (countCells isMine (board g))"
        using countCells_updCell [OF cl, of isMine "\<lambda>x. x\<lparr>isMine := True\<rparr>"] True by simp
      have exc: "\<forall>r0 c0. list_ex (\<lambda>e. row e = r0 \<and> col e = c0) ez \<longrightarrow>
            isMineAt (board ?g1) r0 c0 = isMineAt (board g) r0 c0"
        using True by (auto simp: isMineAt_updCell_mine)
      have "sameButBoard g ?g1" by simp
      with ih(1) have "sameButBoard g g'" by (blast intro: sameButBoard_trans)
      moreover from ih(3) cnt
      have "countCells isMine (board g') + k = countCells isMine (board g) + mines g" by simp
      moreover from ih(4) exc
      have "\<forall>r0 c0. list_ex (\<lambda>e. row e = r0 \<and> col e = c0) ez \<longrightarrow>
            isMineAt (board g') r0 c0 = isMineAt (board g) r0 c0" by simp
      ultimately show ?thesis using ih(2) by blast
    next
      case False
      with "2.prems"(1) lt cl have run: "placeLoop g ez k ds = Inr g'" by auto
      from "2.IH"(2) [OF lt cl False run "2.prems"(2,3)] show ?thesis .
    qed
  qed
qed

lemma cellAt_in_concat: "cellAt b r c = Some cl \<Longrightarrow> cl \<in> set (concat b)"
  by (auto simp: cellAt_def split: if_splits intro!: bexI [of _ "b ! nat r"])

lemma no_mines_isMineAt: "countCells isMine b = 0 \<Longrightarrow> \<not> isMineAt b r c"
  by (auto simp: countCells_def isMineAt_def filter_empty_conv split: option.splits
           dest!: cellAt_in_concat)

lemma cellsAt_member:
  "cellsAt b ps = Some cls \<Longrightarrow> (r, c) \<in> set ps \<Longrightarrow> \<exists>cl\<in>set cls. cellAt b r c = Some cl"
  by (induction ps arbitrary: cls) (auto split: option.splits)

lemma getAdjacentCells_member:
  assumes "wf_game g" "getAdjacentCells g r0 c0 = Inr adj"
    "(r, c) \<in> set (neighbours (rows g) (cols g) r0 c0)"
  shows "list_ex (\<lambda>e. row e = r \<and> col e = c) adj"
proof -
  from assms(2) have "cellsAt (board g) (neighbours (rows g) (cols g) r0 c0) = Some adj"
    by (auto simp: getAdjacentCells_def split: option.splits)
  from cellsAt_member [OF this assms(3)] obtain cl where
    "cl \<in> set adj" "cellAt (board g) r c = Some cl" by blast
  with wf_board_fields [OF assms(1) [unfolded wf_game_def]] show ?thesis
    by (auto simp: list_ex_iff)
qed

lemma calculateAdjacentMines_frame:
  assumes "calculateAdjacentMines g = Inr g'"
  shows "sameButBoard g g'" "calcFrame (board g) (board g')"
  using calcCells_frame [of g _ g'] assms by (auto simp: calculateAdjacentMines_def)

lemma placeMines_inv:
  assumes wf: "wf_game g" and run: "placeMines g er ec draws = Inr g'"
  shows "sameButBoard g g'" "wf_game g'"
    "countCells isMine (board g') = countCells isMine (board g) + mines g"
    "\<bar>r - er\<bar> \<le> 1 \<and> \<bar>c - ec\<bar> \<le> 1 \<Longrightarrow> isMineAt (board g') r c = isMineAt (board g) r c"
    "countOk g' r c"
proof -
  from run obtain adj where adj: "getAdjacentCells g er ec = Inr adj"
    by (auto simp: placeMines_def split: sum.splits)
  let ?ez = "adj @ [\<lparr>row = er, col = ec, isMine = False,
                   isRevealed = False, isFlagged = False, adjacentMines = 0\<rparr>]"
  from run adj obtain g1 where g1: "placeLoop g ?ez 0 draws = Inr g1"
    and calc: "calculateAdjacentMines g1 = Inr g'"
    by (auto simp: placeMines_def split: sum.splits)
  have "0 \<le> mines g" by simp
  note inv = placeLoop_inv [OF g1 wf this]
  from inv have f1: "sameButBoard g g1" by blast
  from inv have wf1: "wf_game g1" by blast
  from inv have "countCells isMine (board g1) + 0 = countCells isMine (board g) + mines g"
    by blast
  then have c1: "countCells isMine (board g1) = countCells isMine (board g) + mines g" by simp
  from inv have e1: "\<And>r0 c0. list_ex (\<lambda>e. row e = r0 \<and> col e = c0) ?ez \<Longrightarrow>
            isMineAt (board g1) r0 c0 = isMineAt (board g) r0 c0"
    by blast
  note f2 = calculateAdjacentMines_frame [OF calc]
  from f1 f2(1) show "sameButBoard g g'" by (rule sameButBoard_trans)
  from calc wf1 show "wf_game g'"
    using calcCells_wf by (auto simp: calculateAdjacentMines_def)
  have "countCells isMine (board g') = countCells isMine (board g1)"
    using calc by (auto simp: calculateAdjacentMines_def intro: calcCells_count)
  with c1 show "countCells isMine (board g') = countCells isMine (board g) + mines g" by simp
  show "countOk g' r c" by (rule calculateAdjacentMines_countOk [OF wf1 calc])
  assume near: "\<bar>r - er\<bar> \<le> 1 \<and> \<bar>c - ec\<bar> \<le> 1"
  have "isMineAt (board g1) r c = isMineAt (board g) r c"
  proof (cases "(r, c) = (er, ec)")
    case True
    then show ?thesis by (intro e1) simp
  next
    case False
    show ?thesis
    proof (cases "0 \<le> r \<and> r < int (rows g) \<and> 0 \<le> c \<and> c < int (cols g)")
      case True
      with near False have "(r, c) \<in> set (neighbours (rows g) (cols g) er ec)"
        by (simp add: mem_neighbours)
      from getAdjacentCells_member [OF wf adj this] show ?thesis
        by (intro e1) simp
    next
      case False
      with wf_board_cellAt [OF wf [unfolded wf_game_def], of r c]
      have "cellAt (board g) r c = None" by auto
      moreover from False have "\<not> (0 \<le> r \<and> r < int (rows g1) \<and> 0 \<le> c \<and> c < int (cols g1))"
        by (simp add: sameButBoard_fields [OF f1])
      with wf_board_cellAt [OF wf1 [unfolded wf_game_def], of r c]
      have "cellAt (board g1) r c = None" by auto
      ultimately show ?thesis by (simp add: isMineAt_def)
    qed
  qed
  with calcFrame_isMineAt [OF f2(2)]
  show "isMineAt (board g') r c = isMineAt (board g) r c" by simp
qed

section \<open>Reveals on a well-formed board\<close>

lemma cellsAt_coords:
  "cellsAt b ps = Some cls \<Longrightarrow> wf_board nr nc b \<Longrightarrow> map (\<lambda>a. (row a, col a)) cls = ps"
proof (induction ps arbitrary: cls)
  case Nil
  then show ?case by simp
next
  case (Cons p ps)
  obtain r c where p: "p = (r, c)" by (cases p)
  from Cons.prems(1) p obtain cl cls' where
    cl: "cellAt b r c = Some cl" and cls': "cellsAt b ps = Some cls'" and cls: "cls = cl # cls'"
    by (auto split: option.splits)
  from wf_board_fields [OF Cons.prems(2) cl] Cons.IH [OF cls' Cons.prems(2)] p cls
  show ?case by simp
qed

lemma cellsAt_mines:
  "cellsAt b ps = Some cls \<Longrightarrow>
   map fst (filter (\<lambda>(p, cl). isMine cl) (zip ps cls)) = filter (\<lambda>(r, c). isMineAt b r c) ps"
  by (induction ps arbitrary: cls) (auto simp: isMineAt_def split: option.splits)

lemma wf_allCells:
  assumes "wf_game g"
  shows "\<exists>cls. cellsAt (board g) (allCoords (rows g) (cols g)) = Some cls"
proof (rule cellsAt_defined)
  fix r c assume "(r, c) \<in> set (allCoords (rows g) (cols g))"
  with wf_board_cellAt [OF assms [unfolded wf_game_def], of r c]
  show "cellAt (board g) r c \<noteq> None" by (auto simp: set_allCoords)
qed

lemma stopTimer_board [simp]:
  "board (stopTimer g) = board g" "rows (stopTimer g) = rows g" "cols (stopTimer g) = cols g"
  "boardGen (stopTimer g) = boardGen g" "pending (stopTimer g) = pending g"
  "mines (stopTimer g) = mines g" "revealedCount (stopTimer g) = revealedCount g"
  "totalNonMines (stopTimer g) = totalNonMines g" "isGameOver (stopTimer g) = isGameOver g"
  "faceElement (stopTimer g) = faceElement g" "minesLeft (stopTimer g) = minesLeft g"
  "isFirstClick (stopTimer g) = isFirstClick g" "timer (stopTimer g) = timer g"
  "nextHandle (stopTimer g) = nextHandle g"
  by (simp_all add: stopTimer_def split: option.splits)

lemma wf_gameOver:
  assumes "wf_game g"
  shows "gameOver g hr hc =
     Inr ((stopTimer (g\<lparr>isGameOver := True\<rparr>))\<lparr>faceElement := Dizzy, pending := pending g @ mineTasks g\<rparr>)"
proof -
  let ?g1 = "(stopTimer (g\<lparr>isGameOver := True\<rparr>))\<lparr>faceElement := Dizzy\<rparr>"
  from wf_allCells [OF assms] obtain cls where
    cls: "cellsAt (board g) (allCoords (rows g) (cols g)) = Some cls" ..
  then have "gameOver g hr hc =
      Inr (?g1\<lparr>pending := pending g @ map (\<lambda>(r, c). MineShow (boardGen g) r c)
             (map fst (filter (\<lambda>(p, cl). isMine cl) (zip (allCoords (rows g) (cols g)) cls)))\<rparr>)"
    by (simp add: gameOver_def Let_def)
  then show ?thesis
    by (simp add: cellsAt_mines [OF cls] mineTasks_def)
qed

lemma wf_chain:
  assumes "wf_game g"
  shows "\<exists>adj. getAdjacentCells g r c = Inr adj \<and>
           map (\<lambda>a. ChainReveal (row a) (col a)) adj = chainTasks g r c"
proof -
  from wf_getAdjacentCells [OF assms] obtain adj where adj: "getAdjacentCells g r c = Inr adj"
    by blast
  then have "cellsAt (board g) (neighbours (rows g) (cols g) r c) = Some adj"
    by (auto simp: getAdjacentCells_def split: option.splits)
  from cellsAt_coords [OF this assms [unfolded wf_game_def]]
  have "map (\<lambda>a. (row a, col a)) adj = neighbours (rows g) (cols g) r c" .
  then have "map (\<lambda>(r', c'). ChainReveal r' c') (map (\<lambda>a. (row a, col a)) adj) = chainTasks g r c"
    by (simp add: chainTasks_def)
  then have "map (\<lambda>a. ChainReveal (row a) (col a)) adj = chainTasks g r c"
    by (simp add: comp_def)
  with adj show ?thesis by blast
qed

lemma wf_game_reveal_upd:
  "wf_game g \<Longrightarrow>
   wf_game (g\<lparr>board := updCell (board g) r c (\<lambda>x. x\<lparr>isRevealed := True\<rparr>), revealedCount := n\<rparr>)"
  by (simp add: wf_game_def wf_board_updCell)

lemma revealCell_None: "cellAt (board g) r c = None \<Longrightarrow> revealCell g r c ch = Inl TypeError"
  by (simp add: revealCell_def)

lemma wf_revealCell:
  assumes wf: "wf_game g" and cl: "cellAt (board g) r c = Some cl"
  shows "revealCell g r c ch = Inr (revealed g r c cl)"
proof (cases "isRevealed cl \<or> isFlagged cl")
  case True
  with cl show ?thesis by (simp add: revealCell_def revealed_def)
next
  case False
  let ?g1 = "g\<lparr>board := updCell (board g) r c (\<lambda>x. x\<lparr>isRevealed := True\<rparr>),
               revealedCount := revealedCount g + 1\<rparr>"
  have wf1: "wf_game ?g1" by (rule wf_game_reveal_upd [OF wf])
  show ?thesis
  proof (cases "isMine cl")
    case True
    with False cl wf_gameOver [OF wf1, of r c] show ?thesis
      by (simp add: revealCell_def revealed_def Let_def)
  next
    case nm: False
    from wf_chain [OF wf1, of r c] obtain adj where
      adj: "getAdjacentCells ?g1 r c = Inr adj"
        "map (\<lambda>a. ChainReveal (row a) (col a)) adj = chainTasks ?g1 r c" by blast
    have ct: "chainTasks ?g1 r c = chainTasks g r c" by (simp add: chainTasks_def)
    from False nm cl adj ct show ?thesis
      by (simp add: revealCell_def revealed_def Let_def)
  qed
qed

section \<open>What a reveal changes\<close>

lemma revFrame_refl [simp]: "revFrame b b"
  by (simp add: revFrame_def)

lemma revFrame_trans: "revFrame a b \<Longrightarrow> revFrame b c \<Longrightarrow> revFrame a c"
  by (simp add: revFrame_def)

lemma revFrame_updCell: "revFrame b (updCell b r c (\<lambda>x. x\<lparr>isRevealed := True\<rparr>))"
  by (auto simp: revFrame_def cellAt_updCell isRevealedAt_def option.map_comp comp_def
           split: option.splits)

lemma revFrame_cell:
  assumes "revFrame b b'"
  shows "rel_option (\<lambda>x y. isMine y = isMine x \<and> isFlagged y = isFlagged x \<and>
                          adjacentMines y = adjacentMines x \<and> row y = row x \<and> col y = col x \<and>
                          (isRevealed x \<longrightarrow> isRevealed y))
           (cellAt b r c) (cellAt b' r c)"
proof -
  from assms have eq: "map_option (\<lambda>x. x\<lparr>isRevealed := True\<rparr>) (cellAt b' r c) =
      map_option (\<lambda>x. x\<lparr>isRevealed := True\<rparr>) (cellAt b r c)"
    and mono: "isRevealedAt b r c \<longrightarrow> isRevealedAt b' r c"
    unfolding revFrame_def by blast+
  show ?thesis
  proof (cases "cellAt b r c")
    case None
    with eq show ?thesis by simp
  next
    case (Some x)
    with eq obtain y where y: "cellAt b' r c = Some y" "y\<lparr>isRevealed := True\<rparr> = x\<lparr>isRevealed := True\<rparr>"
      by auto
    from y(2) have "isMine y = isMine x \<and> isFlagged y = isFlagged x \<and>
                    adjacentMines y = adjacentMines x \<and> row y = row x \<and> col y = col x"
      by (cases x, cases y) simp
    with Some y(1) mono show ?thesis by (simp add: isRevealedAt_def)
  qed
qed

lemma revFrame_None: "revFrame b b' \<Longrightarrow> cellAt b' r c = None \<longleftrightarrow> cellAt b r c = None"
  using revFrame_cell [of b b' r c] by (auto elim: option.rel_cases)

lemma revFrame_isMineAt: "revFrame b b' \<Longrightarrow> isMineAt b' r c = isMineAt b r c"
  using revFrame_cell [of b b' r c]
  by (auto simp: isMineAt_def elim!: option.rel_cases)

lemma revFrame_isFlaggedAt: "revFrame b b' \<Longrightarrow> isFlaggedAt b' r c = isFlaggedAt b r c"
  using revFrame_cell [of b b' r c]
  by (auto simp: isFlaggedAt_def elim!: option.rel_cases)

lemma revFrame_zeroAt: "revFrame b b' \<Longrightarrow> zeroAt b' r c = zeroAt b r c"
  using revFrame_cell [of b b' r c]
  by (auto simp: zeroAt_def elim!: option.rel_cases)

lemma revFrame_mono: "revFrame b b' \<Longrightarrow> isRevealedAt b r c \<Longrightarrow> isRevealedAt b' r c"
  by (simp add: revFrame_def)

lemma revealed_noop:
  "isRevealed cl \<or> isFlagged cl \<Longrightarrow> revealed g r c cl = g"
  by (simp add: revealed_def)

lemma revealed_static:
  "rows (revealed g r c cl) = rows g" "cols (revealed g r c cl) = cols g"
  "mines (revealed g r c cl) = mines g" "boardGen (revealed g r c cl) = boardGen g"
  "totalNonMines (revealed g r c cl) = totalNonMines g"
  "minesLeft (revealed g r c cl) = minesLeft g"
  "isFirstClick (revealed g r c cl) = isFirstClick g"
  "timer (revealed g r c cl) = timer g" "nextHandle (revealed g r c cl) = nextHandle g"
  by (simp_all add: revealed_def Let_def win_def)

lemma revealed_board:
  "board (revealed g r c cl) =
     (if isRevealed cl \<or> isFlagged cl then board g
      else updCell (board g) r c (\<lambda>x. x\<lparr>isRevealed := True\<rparr>))"
  by (simp add: revealed_def Let_def win_def)

lemma revealed_count:
  "revealedCount (revealed g r c cl) =
     (if isRevealed cl \<or> isFlagged cl then revealedCount g else revealedCount g + 1)"
  by (simp add: revealed_def Let_def win_def)

lemma mineTasks_upd [simp]:
  "mineTasks (g\<lparr>board := b, revealedCount := n\<rparr>) = mineTasks (g\<lparr>board := b\<rparr>)"
  by (simp add: mineTasks_def)

lemma revealed_pending:
  "pending (revealed g r c cl) =
     pending g @
     (if isRevealed cl \<or> isFlagged cl then []
      else if isMine cl
      then mineTasks (g\<lparr>board := updCell (board g) r c (\<lambda>x. x\<lparr>isRevealed := True\<rparr>)\<rparr>)
      else if adjacentMines cl = 0 then chainTasks g r c else [])"
  by (simp add: revealed_def Let_def win_def)

lemma revealed_over:
  "isGameOver (revealed g r c cl) =
     (if isRevealed cl \<or> isFlagged cl then isGameOver g
      else isMine cl \<or> int (revealedCount g + 1) = totalNonMines g \<or> isGameOver g)"
  by (simp add: revealed_def Let_def win_def)

lemma revealed_face:
  "faceElement (revealed g r c cl) =
     (if isRevealed cl \<or> isFlagged cl then faceElement g
      else if isMine cl then Dizzy
      else if int (revealedCount g + 1) = totalNonMines g then Cool else faceElement g)"
  by (simp add: revealed_def Let_def win_def)

lemma revealed_wf: "wf_game g \<Longrightarrow> wf_game (revealed g r c cl)"
  by (simp add: wf_game_def revealed_static revealed_board wf_board_updCell)

lemma revealed_revFrame: "revFrame (board g) (board (revealed g r c cl))"
  by (simp add: revealed_board revFrame_updCell)

section \<open>Firing a timeout\<close>

lemma dequeue_fields [simp]:
  "board (dequeue i g) = board g" "rows (dequeue i g) = rows g" "cols (dequeue i g) = cols g"
  "mines (dequeue i g) = mines g" "boardGen (dequeue i g) = boardGen g"
  "totalNonMines (dequeue i g) = totalNonMines g" "minesLeft (dequeue i g) = minesLeft g"
  "isFirstClick (dequeue i g) = isFirstClick g" "timer (dequeue i g) = timer g"
  "nextHandle (dequeue i g) = nextHandle g" "revealedCount (dequeue i g) = revealedCount g"
  "isGameOver (dequeue i g) = isGameOver g" "faceElement (dequeue i g) = faceElement g"
  "timerInterval (dequeue i g) = timerInterval g" "intervals (dequeue i g) = intervals g"
  "pending (dequeue i g) = take i (pending g) @ drop (Suc i) (pending g)"
  by (simp_all add: dequeue_def)

lemma dequeue_wf [simp]: "wf_game (dequeue i g) = wf_game g"
  by (simp add: wf_game_def)

lemma length_dequeue: "i < length (pending g) \<Longrightarrow> Suc (length (pending (dequeue i g))) = length (pending g)"
  by simp

lemma set_dequeue: "set (pending (dequeue i g)) \<subseteq> set (pending g)"
  by (auto dest: in_set_takeD in_set_dropD)

lemma set_remove_nth:
  "i < length xs \<Longrightarrow> t \<in> set xs \<Longrightarrow> t = xs ! i \<or> t \<in> set (take i xs @ drop (Suc i) xs)"
proof (induction xs arbitrary: i)
  case Nil
  then show ?case by simp
next
  case (Cons x xs)
  show ?case
  proof (cases i)
    case 0
    with Cons.prems show ?thesis by auto
  next
    case (Suc k)
    show ?thesis
    proof (cases "t = x")
      case True
      with Suc show ?thesis by simp
    next
      case False
      with Cons.prems Suc have "k < length xs" "t \<in> set xs" by auto
      from Cons.IH [OF this] Suc show ?thesis by auto
    qed
  qed
qed

lemma set_dequeue_rest:
  "i < length (pending g) \<Longrightarrow> t \<in> set (pending g) \<Longrightarrow>
   t = pending g ! i \<or> t \<in> set (pending (dequeue i g))"
  using set_remove_nth [of i "pending g" t] by simp

text \<open>What the \<open>i\<close>-th timeout does when it fires on a well-formed board.\<close>

lemma fire_beyond: "\<not> i < length (pending g) \<Longrightarrow> fire i g = g"
  by (simp add: fire_def)

lemma fire_alt:
  "fire i g =
     (if i < length (pending g)
      then (case fireTask (dequeue i g) (pending g ! i) of
              Inl e \<Rightarrow> dequeue i g | Inr g'' \<Rightarrow> g'')
      else g)"
  by (simp add: fire_def dequeue_def Let_def cong: sum.case_cong)

lemma fire_chain:
  assumes "wf_game g" "i < length (pending g)" "pending g ! i = ChainReveal r c"
  shows "fire i g = (case cellAt (board g) r c of
                       None \<Rightarrow> dequeue i g
                     | Some cl \<Rightarrow> revealed (dequeue i g) r c cl)"
proof (cases "cellAt (board g) r c")
  case None
  then have "revealCell (dequeue i g) r c True = Inl TypeError"
    by (simp add: revealCell_None)
  with assms None show ?thesis
    by (simp add: fire_alt fireTask_def)
next
  case (Some cl)
  have "wf_game (dequeue i g)" using assms(1) by simp
  from wf_revealCell [OF this, of r c cl True] Some
  have "revealCell (dequeue i g) r c True = Inr (revealed (dequeue i g) r c cl)" by simp
  with Some assms(2,3) show ?thesis
    by (simp add: fire_alt fireTask_def)
qed

lemma fire_mine:
  assumes "i < length (pending g)" "pending g ! i = MineShow gen r c"
  shows "fire i g =
     (if gen = boardGen g
      then (dequeue i g)\<lparr>board := updCell (board g) r c (\<lambda>x. x\<lparr>isRevealed := True\<rparr>)\<rparr>
      else dequeue i g)"
  using assms by (simp add: fire_alt fireTask_def)

lemma fire_static:
  assumes "wf_game g"
  shows "rows (fire i g) = rows g \<and> cols (fire i g) = cols g \<and> mines (fire i g) = mines g \<and>
         boardGen (fire i g) = boardGen g \<and> totalNonMines (fire i g) = totalNonMines g \<and>
         minesLeft (fire i g) = minesLeft g \<and> isFirstClick (fire i g) = isFirstClick g \<and>
         timer (fire i g) = timer g \<and> nextHandle (fire i g) = nextHandle g \<and>
         wf_game (fire i g) \<and> revFrame (board g) (board (fire i g))"
proof (cases "i < length (pending g)")
  case False
  with assms show ?thesis by (simp add: fire_beyond)
next
  case True
  show ?thesis
  proof (cases "pending g ! i")
    case (ChainReveal r c)
    show ?thesis
    proof (cases "cellAt (board g) r c")
      case None
      with fire_chain [OF assms True ChainReveal] assms show ?thesis by simp
    next
      case (Some cl)
      with fire_chain [OF assms True ChainReveal]
      have eq: "fire i g = revealed (dequeue i g) r c cl" by simp
      have "wf_game (revealed (dequeue i g) r c cl)" using assms by (simp add: revealed_wf)
      moreover have "revFrame (board g) (board (revealed (dequeue i g) r c cl))"
        using revealed_revFrame [of "dequeue i g" r c cl] by simp
      ultimately show ?thesis unfolding eq by (simp add: revealed_static)
    qed
  next
    case (MineShow gen r c)
    from fire_mine [OF True MineShow] assms show ?thesis
      by (simp add: wf_game_def wf_board_updCell revFrame_updCell)
  qed
qed

lemma run_static:
  "wf_game g \<Longrightarrow>
     rows (run is g) = rows g \<and> cols (run is g) = cols g \<and> mines (run is g) = mines g \<and>
     boardGen (run is g) = boardGen g \<and> totalNonMines (run is g) = totalNonMines g \<and>
     wf_game (run is g) \<and> revFrame (board g) (board (run is g))"
proof (induction "is" arbitrary: g)
  case Nil
  then show ?case by simp
next
  case (Cons i "is")
  note f = fire_static [OF Cons.prems, of i]
  from f have wf: "wf_game (fire i g)" by blast
  from Cons.IH [OF wf] f show ?case by (auto intro: revFrame_trans)
qed

section \<open>Firing timeouts comes to an end\<close>

lemma gameOver_board: "gameOver g hr hc = Inr g' \<Longrightarrow> board g' = board g"
  by (auto simp: gameOver_def Let_def split: option.splits)

lemma revealCell_board:
  assumes "revealCell g r c ch = Inr g'" "cellAt (board g) r c = Some cl"
  shows "if isRevealed cl \<or> isFlagged cl then g' = g
         else board g' = updCell (board g) r c (\<lambda>x. x\<lparr>isRevealed := True\<rparr>)"
proof (cases "isRevealed cl \<or> isFlagged cl")
  case True
  with assms show ?thesis by (simp add: revealCell_def)
next
  case False
  let ?g1 = "g\<lparr>board := updCell (board g) r c (\<lambda>x. x\<lparr>isRevealed := True\<rparr>),
               revealedCount := revealedCount g + 1\<rparr>"
  show ?thesis
  proof (cases "isMine cl")
    case True
    with assms False have "gameOver ?g1 r c = Inr g'" by (simp add: revealCell_def Let_def)
    from gameOver_board [OF this] False show ?thesis by simp
  next
    case nm: False
    show ?thesis
    proof (cases "adjacentMines cl = 0")
      case True
      with assms False nm obtain adj where "getAdjacentCells ?g1 r c = Inr adj"
        by (auto simp: revealCell_def Let_def split: sum.splits)
      with assms False nm True show ?thesis
        by (auto simp: revealCell_def Let_def win_def split: if_splits)
    next
      case z: False
      with assms False nm show ?thesis
        by (auto simp: revealCell_def Let_def win_def split: if_splits)
    qed
  qed
qed

lemma unrevealed_updCell:
  assumes "cellAt b r c = Some cl"
  shows "countCells (\<lambda>cl. \<not> isRevealed cl) (updCell b r c (\<lambda>x. x\<lparr>isRevealed := True\<rparr>)) +
           (if isRevealed cl then 0 else 1) = countCells (\<lambda>cl. \<not> isRevealed cl) b"
  using countCells_updCell [OF assms, of "\<lambda>cl. \<not> isRevealed cl" "\<lambda>x. x\<lparr>isRevealed := True\<rparr>"]
  by (cases "isRevealed cl") simp_all

lemma unrevealed_updCell_le:
  "countCells (\<lambda>cl. \<not> isRevealed cl) (updCell b r c (\<lambda>x. x\<lparr>isRevealed := True\<rparr>))
     \<le> countCells (\<lambda>cl. \<not> isRevealed cl) b"
proof (cases "cellAt b r c")
  case None
  then show ?thesis by (simp add: updCell_def)
next
  case (Some cl)
  from unrevealed_updCell [OF this] show ?thesis by (simp split: if_splits)
qed

lemma fireTask_measure:
  assumes "fireTask g t = Inr g'"
  shows "unrevealedCount g' < unrevealedCount g \<or>
         unrevealedCount g' \<le> unrevealedCount g \<and> pending g' = pending g"
proof (cases t)
  case (ChainReveal r c)
  with assms have run: "revealCell g r c True = Inr g'" by (simp add: fireTask_def)
  then obtain cl where cl: "cellAt (board g) r c = Some cl"
    by (auto simp: revealCell_def split: option.splits)
  from revealCell_board [OF run cl] unrevealed_updCell [OF cl] show ?thesis
    by (auto simp: unrevealedCount_def split: if_splits)
next
  case (MineShow gen r c)
  with assms unrevealed_updCell_le [of "board g" r c] show ?thesis
    by (auto simp: fireTask_def unrevealedCount_def split: if_splits)
qed

lemma fire_measure:
  assumes "i < length (pending g)"
  shows "(fire i g, g) \<in> inv_image (less_than <*lex*> less_than)
                             (\<lambda>g. (unrevealedCount g, length (pending g)))"
proof -
  have d: "unrevealedCount (dequeue i g) = unrevealedCount g"
    "length (pending (dequeue i g)) < length (pending g)"
    using assms by (simp_all add: unrevealedCount_def) 
  show ?thesis
  proof (cases "fireTask (dequeue i g) (pending g ! i)")
    case (Inl e)
    with assms have "fire i g = dequeue i g" by (simp add: fire_alt)
    with d show ?thesis by simp
  next
    case (Inr g'')
    with assms have eq: "fire i g = g''" by (simp add: fire_alt)
    from fireTask_measure [OF Inr] d show ?thesis unfolding eq by auto
  qed
qed

lemma wf_fireRel: "wf fireRel"
proof (rule wf_subset)
  show "wf (inv_image (less_than <*lex*> less_than) (\<lambda>g. (unrevealedCount g, length (pending g))))"
    by (intro wf_inv_image wf_lex_prod wf_less_than)
  show "fireRel \<subseteq> inv_image (less_than <*lex*> less_than)
                     (\<lambda>g. (unrevealedCount g, length (pending g)))"
    unfolding fireRel_def using fire_measure by blast
qed

lemma drain_exists: "\<exists>is. pending (run is g) = []"
proof (induction g rule: wf_induct_rule [OF wf_fireRel])
  case (1 g)
  show ?case
  proof (cases "pending g")
    case Nil
    then have "pending (run [] g) = []" by simp
    then show ?thesis ..
  next
    case (Cons t ts)
    then have "(fire 0 g, g) \<in> fireRel" by (auto simp: fireRel_def)
    from "1.IH" [OF this] obtain "is" where "pending (run is (fire 0 g)) = []" ..
    then have "pending (run (0 # is) g) = []" by simp
    then show ?thesis ..
  qed
qed

section \<open>The mines shown after a loss\<close>

lemma isRevealedAt_updCell:
  "isRevealedAt (updCell b r c (\<lambda>x. x\<lparr>isRevealed := True\<rparr>)) r' c' =
     (if r' = r \<and> c' = c then cellAt b r c \<noteq> None else isRevealedAt b r' c')"
  by (auto simp: isRevealedAt_def cellAt_updCell split: option.splits)

lemma isMineAt_Some: "isMineAt b r c \<Longrightarrow> cellAt b r c \<noteq> None"
  by (auto simp: isMineAt_def split: option.splits)

lemma fire_wf: "wf_game g \<Longrightarrow> wf_game (fire i g)"
  using fire_static [of g i] by blast

lemma fire_revFrame: "wf_game g \<Longrightarrow> revFrame (board g) (board (fire i g))"
  using fire_static [of g i] by blast

lemma fire_fields:
  assumes "wf_game g"
  shows "rows (fire i g) = rows g" "cols (fire i g) = cols g" "mines (fire i g) = mines g"
    "boardGen (fire i g) = boardGen g" "totalNonMines (fire i g) = totalNonMines g"
    "minesLeft (fire i g) = minesLeft g" "isFirstClick (fire i g) = isFirstClick g"
    "timer (fire i g) = timer g" "nextHandle (fire i g) = nextHandle g"
  using fire_static [OF assms, of i] by blast+

lemma run_wf: "wf_game g \<Longrightarrow> wf_game (run is g)"
  using run_static [of g "is"] by blast

lemma run_revFrame: "wf_game g \<Longrightarrow> revFrame (board g) (board (run is g))"
  using run_static [of g "is"] by blast

lemma fire_mineShown:
  assumes wf: "wf_game g" and m: "isMineAt (board g) r c" and s: "mineShown g r c"
  shows "mineShown (fire i g) r c"
proof (cases "i < length (pending g)")
  case False
  with s show ?thesis by (simp add: fire_beyond)
next
  case True
  show ?thesis
  proof (cases "isRevealedAt (board g) r c")
    case True
    from revFrame_mono [OF fire_revFrame [OF wf] this] show ?thesis
      by (simp add: mineShown_def)
  next
    case False
    with s have p: "MineShow (boardGen g) r c \<in> set (pending g)" by (simp add: mineShown_def)
    show ?thesis
    proof (cases "pending g ! i")
      case (ChainReveal r' c')
      with set_dequeue_rest [OF True p]
      have d: "MineShow (boardGen g) r c \<in> set (pending (dequeue i g))" by auto
      show ?thesis
      proof (cases "cellAt (board g) r' c'")
        case None
        with fire_chain [OF wf True ChainReveal] d show ?thesis
          by (simp add: mineShown_def)
      next
        case (Some cl)
        with fire_chain [OF wf True ChainReveal]
        have eq: "fire i g = revealed (dequeue i g) r' c' cl" by simp
        from d show ?thesis unfolding eq mineShown_def
          by (auto simp: revealed_static revealed_pending)
      qed
    next
      case (MineShow gen r' c')
      note eq = fire_mine [OF True MineShow]
      show ?thesis
      proof (cases "gen = boardGen g \<and> r' = r \<and> c' = c")
        case True
        with eq isMineAt_Some [OF m] show ?thesis
          by (simp add: mineShown_def isRevealedAt_updCell)
      next
        case False
        with set_dequeue_rest [OF True p] MineShow
        have d: "MineShow (boardGen g) r c \<in> set (pending (dequeue i g))" by auto
        with eq show ?thesis by (simp add: mineShown_def)
      qed
    qed
  qed
qed

lemma run_mineShown:
  "wf_game g \<Longrightarrow> isMineAt (board g) r c \<Longrightarrow> mineShown g r c \<Longrightarrow> mineShown (run is g) r c"
proof (induction "is" arbitrary: g)
  case Nil
  then show ?case by simp
next
  case (Cons i "is")
  have wf: "wf_game (fire i g)" by (rule fire_wf [OF Cons.prems(1)])
  from Cons.prems(2) have m: "isMineAt (board (fire i g)) r c"
    by (simp add: revFrame_isMineAt [OF fire_revFrame [OF Cons.prems(1)]])
  from Cons.IH [OF wf m fire_mineShown [OF Cons.prems]] show ?case by simp
qed

lemma mineTasks_member:
  assumes "wf_game g" "isMineAt (board g) r c"
  shows "MineShow (boardGen g) r c \<in> set (mineTasks g)"
proof -
  from isMineAt_Some [OF assms(2)] wf_board_cellAt [OF assms(1) [unfolded wf_game_def], of r c]
  have "(r, c) \<in> set (allCoords (rows g) (cols g))" by (auto simp: set_allCoords)
  with assms(2) show ?thesis by (force simp: mineTasks_def)
qed

section \<open>Consistent boards and cascades\<close>

lemma consistent_countOk:
  assumes "wf_game g" "consistent g"
  shows "countOk g r c"
proof (cases "cellAt (board g) r c")
  case None
  then show ?thesis by (simp add: countOk_def)
next
  case (Some cl)
  with wf_board_cellAt [OF assms(1) [unfolded wf_game_def], of r c]
  have "(r, c) \<in> set (allCoords (rows g) (cols g))" by (auto simp: set_allCoords)
  with assms(2) show ?thesis by (auto simp: consistent_def list_all_iff)
qed

lemma countOk_consistent: "(\<And>r c. countOk g r c) \<Longrightarrow> consistent g"
  by (auto simp: consistent_def list_all_iff)

lemma placeMines_consistent:
  "wf_game g \<Longrightarrow> placeMines g er ec draws = Inr g' \<Longrightarrow> wf_game g' \<and> consistent g'"
  using placeMines_inv(2,5) [of g er ec draws g'] by (blast intro: countOk_consistent)

lemma revFrame_mineNeighbours:
  "revFrame b b' \<Longrightarrow> mineNeighbours nr nc b' r c = mineNeighbours nr nc b r c"
  by (simp add: mineNeighbours_def revFrame_isMineAt)

lemma revFrame_countOk:
  assumes "revFrame (board g) (board g')" "rows g' = rows g" "cols g' = cols g"
  shows "countOk g' r c = countOk g r c"
  using revFrame_cell [OF assms(1), of r c] assms(2,3)
  by (auto simp: countOk_def revFrame_mineNeighbours [OF assms(1)] elim!: option.rel_cases)

lemma revFrame_consistent:
  assumes "revFrame (board g) (board g')" "rows g' = rows g" "cols g' = cols g"
  shows "consistent g' = consistent g"
  by (simp add: consistent_def revFrame_countOk [OF assms] assms(2,3))

lemma zero_no_mine_neighbour:
  assumes wf: "wf_game g" and co: "consistent g" and z: "zeroAt (board g) r c"
    and n: "(r', c') \<in> set (neighbours (rows g) (cols g) r c)"
  shows "\<not> isMineAt (board g) r' c'"
proof -
  from z obtain cl where cl: "cellAt (board g) r c = Some cl" "\<not> isMine cl" "adjacentMines cl = 0"
    by (auto simp: zeroAt_def split: option.splits)
  with consistent_countOk [OF wf co, of r c]
  have "mineNeighbours (rows g) (cols g) (board g) r c = 0" by (simp add: countOk_def)
  then have "filter (\<lambda>(r', c'). isMineAt (board g) r' c') (neighbours (rows g) (cols g) r c) = []"
    by (simp add: mineNeighbours_def)
  with n show ?thesis by (auto simp: filter_empty_conv)
qed

lemma cascadeOnly_iff:
  "cascadeOnly g \<longleftrightarrow>
     (\<forall>t \<in> set (pending g). \<exists>r c. t = ChainReveal r c \<and> \<not> isMineAt (board g) r c)"
proof -
  have "(case t of ChainReveal r c \<Rightarrow> \<not> isMineAt (board g) r c | MineShow gen r c \<Rightarrow> False) =
        (\<exists>r c. t = ChainReveal r c \<and> \<not> isMineAt (board g) r c)" for t
    by (cases t) auto
  then show ?thesis by (simp add: cascadeOnly_def list_all_iff)
qed

lemma chainTasks_member:
  "t \<in> set (chainTasks g r c) \<longleftrightarrow>
     (\<exists>r' c'. t = ChainReveal r' c' \<and> (r', c') \<in> set (neighbours (rows g) (cols g) r c))"
  by (auto simp: chainTasks_def)

text \<open>A reveal of a cell that is not a mine keeps the three properties and cannot lose.\<close>

lemma revealed_safe:
  assumes wf: "wf_game g" and co: "consistent g" and ca: "cascadeOnly g"
    and cl: "cellAt (board g) r c = Some cl" and nm: "\<not> isMine cl"
  shows "wf_game (revealed g r c cl)" "consistent (revealed g r c cl)"
    "cascadeOnly (revealed g r c cl)" "lost (revealed g r c cl) \<longrightarrow> lost g"
    "isRevealedAt (board (revealed g r c cl)) r' c' \<and> isMineAt (board g) r' c'
       \<longrightarrow> isRevealedAt (board g) r' c'"
proof -
  let ?g' = "revealed g r c cl"
  note fr = revealed_revFrame [of g r c cl]
  show "wf_game ?g'" by (rule revealed_wf [OF wf])
  show "consistent ?g'" using co
    by (simp add: revFrame_consistent [OF fr] revealed_static)
  show "cascadeOnly ?g'"
    unfolding cascadeOnly_iff
  proof
    fix t assume t: "t \<in> set (pending ?g')"
    show "\<exists>r' c'. t = ChainReveal r' c' \<and> \<not> isMineAt (board ?g') r' c'"
    proof (cases "t \<in> set (pending g)")
      case True
      with ca show ?thesis by (auto simp: cascadeOnly_iff revFrame_isMineAt [OF fr])
    next
      case False
      with t nm have z: "adjacentMines cl = 0" and tt: "t \<in> set (chainTasks g r c)"
        by (auto simp: revealed_pending split: if_splits)
      from tt obtain r' c' where t': "t = ChainReveal r' c'"
        "(r', c') \<in> set (neighbours (rows g) (cols g) r c)"
        by (auto simp: chainTasks_member)
      from cl nm z have "zeroAt (board g) r c" by (simp add: zeroAt_def)
      from zero_no_mine_neighbour [OF wf co this t'(2)] t'(1) show ?thesis
        by (simp add: revFrame_isMineAt [OF fr])
    qed
  qed
  show "lost ?g' \<longrightarrow> lost g" using nm
    by (auto simp: lost_def revealed_over revealed_face split: if_splits)
  show "isRevealedAt (board ?g') r' c' \<and> isMineAt (board g) r' c' \<longrightarrow> isRevealedAt (board g) r' c'"
    using cl nm by (auto simp: revealed_board isRevealedAt_updCell isMineAt_def split: if_splits)
qed

lemma cascadeOnly_dequeue: "cascadeOnly g \<Longrightarrow> cascadeOnly (dequeue i g)"
  unfolding cascadeOnly_iff using set_dequeue [of i g] by auto

lemma consistent_dequeue [simp]: "consistent (dequeue i g) = consistent g"
  using revFrame_consistent [of g "dequeue i g"] by simp

lemma fire_safe:
  assumes wf: "wf_game g" and co: "consistent g" and ca: "cascadeOnly g"
  shows "wf_game (fire i g)" "consistent (fire i g)" "cascadeOnly (fire i g)"
    "lost (fire i g) \<longrightarrow> lost g"
    "isRevealedAt (board (fire i g)) r' c' \<and> isMineAt (board g) r' c'
       \<longrightarrow> isRevealedAt (board g) r' c'"
proof -
  have "wf_game (fire i g) \<and> consistent (fire i g) \<and> cascadeOnly (fire i g) \<and>
        (lost (fire i g) \<longrightarrow> lost g) \<and>
        (isRevealedAt (board (fire i g)) r' c' \<and> isMineAt (board g) r' c'
           \<longrightarrow> isRevealedAt (board g) r' c')"
  proof (cases "i < length (pending g)")
    case False
    with assms show ?thesis by (simp add: fire_beyond)
  next
    case True
    then have "pending g ! i \<in> set (pending g)" by simp
    with ca obtain r c where t: "pending g ! i = ChainReveal r c" "\<not> isMineAt (board g) r c"
      by (auto simp: cascadeOnly_iff)
    show ?thesis
    proof (cases "cellAt (board g) r c")
      case None
      with fire_chain [OF wf True t(1)] have "fire i g = dequeue i g" by simp
      with assms show ?thesis by (simp add: cascadeOnly_dequeue lost_def)
    next
      case (Some cl)
      with fire_chain [OF wf True t(1)] have eq: "fire i g = revealed (dequeue i g) r c cl" by simp
      from Some t(2) have nm: "\<not> isMine cl" by (simp add: isMineAt_def)
      have d: "wf_game (dequeue i g)" "consistent (dequeue i g)" "cascadeOnly (dequeue i g)"
        "cellAt (board (dequeue i g)) r c = Some cl"
        using assms Some by (simp_all add: cascadeOnly_dequeue)
      from revealed_safe(1-4) [OF d nm] revealed_safe(5) [OF d nm, of r' c'] show ?thesis
        unfolding eq by (simp add: lost_def)
    qed
  qed
  then show "wf_game (fire i g)" "consistent (fire i g)" "cascadeOnly (fire i g)"
    "lost (fire i g) \<longrightarrow> lost g"
    "isRevealedAt (board (fire i g)) r' c' \<and> isMineAt (board g) r' c'
       \<longrightarrow> isRevealedAt (board g) r' c'"
    by blast+
qed

lemma run_safe:
  "wf_game g \<Longrightarrow> consistent g \<Longrightarrow> cascadeOnly g \<Longrightarrow>
     consistent (run is g) \<and> cascadeOnly (run is g) \<and> (lost (run is g) \<longrightarrow> lost g) \<and>
     (\<forall>r' c'. isRevealedAt (board (run is g)) r' c' \<and> isMineAt (board g) r' c'
        \<longrightarrow> isRevealedAt (board g) r' c')"
proof (induction "is" arbitrary: g)
  case Nil
  then show ?case by simp
next
  case (Cons i "is")
  note f = fire_safe [OF Cons.prems]
  note ih = Cons.IH [OF f(1,2,3)]
  have m: "\<And>r' c'. isMineAt (board (fire i g)) r' c' = isMineAt (board g) r' c'"
    by (rule revFrame_isMineAt [OF fire_revFrame [OF Cons.prems(1)]])
  from ih f(4,5) m show ?case by simp blast
qed

text \<open>
  \<^verbatim>\<open>placeMines\<close> ends with \<^verbatim>\<open>calculateAdjacentMines\<close> and so leaves a consistent board
  (\<open>placeMines_consistent\<close>), and reveals keep it consistent. On such a board, when the
  outstanding timeouts are cascade steps that aim at no mine, a reveal of a cell that is not a
  mine, followed by any number of timeouts in any order, reveals no mine, keeps the
  outstanding timeouts of that kind, and leaves the game lost only if it was lost before.
\<close>

lemma cascade_reveals_no_mine:
  assumes "wf_game g" and "consistent g" and "cascadeOnly g"
    and "cellAt (board g) r c = Some cl" and "\<not> isMine cl"
  shows "\<exists>g1. revealCell g r c False = Inr g1 \<and>
           (\<forall>is. cascadeOnly (run is g1) \<and> (lost (run is g1) \<longrightarrow> lost g) \<and>
                 (\<forall>r' c'. isRevealedAt (board (run is g1)) r' c' \<and> isMineAt (board g) r' c'
                    \<longrightarrow> isRevealedAt (board g) r' c'))"
proof -
  let ?g1 = "revealed g r c cl"
  note s = revealed_safe [OF assms]
  have m: "\<And>r' c'. isMineAt (board ?g1) r' c' = isMineAt (board g) r' c'"
    by (rule revFrame_isMineAt [OF revealed_revFrame])
  have "cascadeOnly (run is ?g1) \<and> (lost (run is ?g1) \<longrightarrow> lost g) \<and>
        (\<forall>r' c'. isRevealedAt (board (run is ?g1)) r' c' \<and> isMineAt (board g) r' c'
           \<longrightarrow> isRevealedAt (board g) r' c')" for "is"
    using run_safe [OF s(1,2,3), of "is"] s(4,5) m by (simp; blast)
  with wf_revealCell [OF assms(1,4), of False] show ?thesis by blast
qed

lemma cascade_reveals_no_mine_example:
  "\<not> isl (revealCell examplePlaced 4 4 False) \<and>
   \<not> lost (run [0, 0, 5, 2] (projr (revealCell examplePlaced 4 4 False))) \<and>
   cascadeOnly (run [0, 0, 5, 2] (projr (revealCell examplePlaced 4 4 False)))"
proof -
  let ?cl = "the (cellAt (board examplePlaced) 4 4)"
  have h: "wf_game examplePlaced" "consistent examplePlaced" "cascadeOnly examplePlaced"
    "cellAt (board examplePlaced) 4 4 = Some ?cl" "\<not> isMine ?cl"
    by code_simp+
  have nl: "\<not> lost examplePlaced" by code_simp
  from cascade_reveals_no_mine [OF h] obtain g1 where
    g1: "revealCell examplePlaced 4 4 False = Inr g1" and
    a: "\<forall>is. cascadeOnly (run is g1) \<and> (lost (run is g1) \<longrightarrow> lost examplePlaced) \<and>
                 (\<forall>r' c'. isRevealedAt (board (run is g1)) r' c' \<and> isMineAt (board examplePlaced) r' c'
                    \<longrightarrow> isRevealedAt (board examplePlaced) r' c')"
    by blast
  from a have "cascadeOnly (run [0, 0, 5, 2] g1) \<and>
               (lost (run [0, 0, 5, 2] g1) \<longrightarrow> lost examplePlaced)" by blast
  with nl g1 show ?thesis by simp
qed

section \<open>The region of a cascade\<close>

lemma region_fresh:
  "cascadeRegion g r0 c0 r c \<Longrightarrow> \<not> isRevealedAt (board g) r0 c0 \<Longrightarrow>
   \<not> isRevealedAt (board g) r c"
  by (induction rule: cascadeRegion.induct) auto

lemma neighbour_cell:
  assumes "wf_game g" "(r', c') \<in> set (neighbours (rows g) (cols g) r c)"
  shows "cellAt (board g) r' c' \<noteq> None"
  using wf_board_cellAt [OF assms(1) [unfolded wf_game_def], of r' c'] assms(2)
  by (auto simp: mem_neighbours)

lemma fire_cascade_cases:
  assumes wf: "wf_game g" and ca: "cascadeOnly g" and i: "i < length (pending g)"
  obtains (skip) r c where "pending g ! i = ChainReveal r c" "fire i g = dequeue i g"
      "isRevealedAt (board g) r c \<or> isFlaggedAt (board g) r c \<or> cellAt (board g) r c = None"
    | (reveal) r c cl where "pending g ! i = ChainReveal r c" "cellAt (board g) r c = Some cl"
      "\<not> isRevealed cl" "\<not> isFlagged cl" "\<not> isMine cl"
      "board (fire i g) = updCell (board g) r c (\<lambda>x. x\<lparr>isRevealed := True\<rparr>)"
      "pending (fire i g) =
         pending (dequeue i g) @ (if adjacentMines cl = 0 then chainTasks g r c else [])"
      "revealedCount (fire i g) = revealedCount g + 1"
proof -
  from i have "pending g ! i \<in> set (pending g)" by simp
  with ca obtain r c where t: "pending g ! i = ChainReveal r c" "\<not> isMineAt (board g) r c"
    by (auto simp: cascadeOnly_iff)
  show ?thesis
  proof (cases "cellAt (board g) r c")
    case None
    with fire_chain [OF wf i t(1)] have "fire i g = dequeue i g" by simp
    with t(1) None show ?thesis by (intro skip) auto
  next
    case (Some cl)
    with fire_chain [OF wf i t(1)] have eq: "fire i g = revealed (dequeue i g) r c cl" by simp
    from Some t(2) have nm: "\<not> isMine cl" by (simp add: isMineAt_def)
    show ?thesis
    proof (cases "isRevealed cl \<or> isFlagged cl")
      case True
      with eq have "fire i g = dequeue i g" by (simp add: revealed_noop)
      with t(1) True Some show ?thesis
        by (intro skip) (auto simp: isRevealedAt_def isFlaggedAt_def)
    next
      case False
      have ct: "chainTasks (dequeue i g) r c = chainTasks g r c" by (simp add: chainTasks_def)
      from False nm show ?thesis
        by (intro reveal [OF t(1) Some])
           (simp_all add: eq revealed_board revealed_pending revealed_count ct)
    qed
  qed
qed

lemma revealed_count_updCell:
  assumes "cellAt b r c = Some cl" "\<not> isRevealed cl"
  shows "countCells isRevealed (updCell b r c (\<lambda>x. x\<lparr>isRevealed := True\<rparr>)) =
         countCells isRevealed b + 1"
  using countCells_updCell [OF assms(1), of isRevealed "\<lambda>x. x\<lparr>isRevealed := True\<rparr>"] assms(2)
  by simp

lemma cascInv_init:
  assumes wf: "wf_game g" and co: "consistent g" and pe: "pending g = []"
    and cl: "cellAt (board g) r0 c0 = Some cl"
    and un: "\<not> isRevealed cl" "\<not> isFlagged cl" and nm: "\<not> isMine cl" and z: "adjacentMines cl = 0"
  shows "cascInv g r0 c0 (revealed g r0 c0 cl)"
proof -
  let ?g' = "revealed g r0 c0 cl"
  have ca: "cascadeOnly g" using pe by (simp add: cascadeOnly_def)
  note s = revealed_safe(1-3) [OF wf co ca cl nm]
  have b: "board ?g' = updCell (board g) r0 c0 (\<lambda>x. x\<lparr>isRevealed := True\<rparr>)"
    using un by (simp add: revealed_board)
  have p: "pending ?g' = chainTasks g r0 c0" using un nm z pe by (simp add: revealed_pending)
  have zr: "zeroAt (board g) r0 c0" using cl nm z by (simp add: zeroAt_def)
  have r0: "isRevealedAt (board ?g') r0 c0" using cl by (simp add: b isRevealedAt_updCell)
  have new: "cascadeRegion g r0 c0 r c"
    if "isRevealedAt (board ?g') r c \<and> \<not> isRevealedAt (board g) r c" for r c
    using that by (auto simp: b isRevealedAt_updCell split: if_splits intro: cascadeRegion.start)
  have tasks: "\<exists>r1 c1. cascadeRegion g r0 c0 r1 c1 \<and> zeroAt (board g) r1 c1 \<and>
                 (r, c) \<in> set (neighbours (rows g) (cols g) r1 c1)"
    if "ChainReveal r c \<in> set (pending ?g')" for r c
    using that zr by (auto simp: p chainTasks_member intro: cascadeRegion.start)
  have cnt: "revealedCount ?g' + countCells isRevealed (board g) =
       revealedCount g + countCells isRevealed (board ?g')"
    using un by (simp add: revealed_count b revealed_count_updCell [OF cl])
  have fresh: "\<not> isRevealedAt (board g) r0 c0" using cl un by (simp add: isRevealedAt_def)
  have clo: "isRevealedAt (board ?g') r' c' \<or> isFlaggedAt (board g) r' c' \<or>
            ChainReveal r' c' \<in> set (pending ?g')"
    if h: "cascadeRegion g r0 c0 r c \<and> isRevealedAt (board ?g') r c \<and>
          zeroAt (board g) r c \<and> (r', c') \<in> set (neighbours (rows g) (cols g) r c)" for r c r' c'
  proof -
    from h region_fresh [OF _ fresh, of r c] have "r = r0 \<and> c = c0"
      by (auto simp: b isRevealedAt_updCell split: if_splits)
    with h show ?thesis by (auto simp: p chainTasks_member)
  qed
  show ?thesis
    unfolding cascInv_def
    using s revealed_revFrame [of g r0 c0 cl] r0 new tasks cnt clo
    by (simp add: revealed_static; blast)
qed

lemma cascInv_fire:
  assumes inv: "cascInv g r0 c0 g'" and fresh: "\<not> isRevealedAt (board g) r0 c0"
  shows "cascInv g r0 c0 (fire i g')"
proof (cases "i < length (pending g')")
  case False
  with inv show ?thesis by (simp add: fire_beyond)
next
  case i: True
  from inv have wf: "wf_game g'" and co: "consistent g'" and ca: "cascadeOnly g'"
    and dims: "rows g' = rows g" "cols g' = cols g" and fr: "revFrame (board g) (board g')"
    and r0: "isRevealedAt (board g') r0 c0"
    and new: "\<And>r c. isRevealedAt (board g') r c \<Longrightarrow> \<not> isRevealedAt (board g) r c
                \<Longrightarrow> cascadeRegion g r0 c0 r c"
    and tasks: "\<And>r c. ChainReveal r c \<in> set (pending g') \<Longrightarrow>
        \<exists>r1 c1. cascadeRegion g r0 c0 r1 c1 \<and> zeroAt (board g) r1 c1 \<and>
                 (r, c) \<in> set (neighbours (rows g) (cols g) r1 c1)"
    and cnt: "revealedCount g' + countCells isRevealed (board g) =
       revealedCount g + countCells isRevealed (board g')"
    and clo: "\<And>r c r' c'. cascadeRegion g r0 c0 r c \<Longrightarrow> isRevealedAt (board g') r c \<Longrightarrow>
          zeroAt (board g) r c \<Longrightarrow> (r', c') \<in> set (neighbours (rows g) (cols g) r c)
        \<Longrightarrow> isRevealedAt (board g') r' c' \<or> isFlaggedAt (board g) r' c' \<or>
            ChainReveal r' c' \<in> set (pending g')"
    unfolding cascInv_def by blast+
  note safe = fire_safe(1-3) [OF wf co ca, of i]
  note fr' = fire_revFrame [OF wf, of i]
  have frg: "revFrame (board g) (board (fire i g'))" by (rule revFrame_trans [OF fr fr'])
  have dims': "rows (fire i g') = rows g" "cols (fire i g') = cols g"
    by (simp_all add: fire_fields [OF wf] dims)
  have r0': "isRevealedAt (board (fire i g')) r0 c0" by (rule revFrame_mono [OF fr' r0])
  from wf ca i show ?thesis
  proof (cases rule: fire_cascade_cases)
    case (skip r c)
    have p: "set (pending (fire i g')) \<subseteq> set (pending g')"
      using set_dequeue [of i g'] by (simp add: skip(2))
    have clo': "isRevealedAt (board (fire i g')) r' c' \<or> isFlaggedAt (board g) r' c' \<or>
            ChainReveal r' c' \<in> set (pending (fire i g'))"
      if h: "cascadeRegion g r0 c0 r1 c1" "isRevealedAt (board (fire i g')) r1 c1"
        "zeroAt (board g) r1 c1" "(r', c') \<in> set (neighbours (rows g) (cols g) r1 c1)"
      for r1 c1 r' c'
    proof -
      from h(2) have "isRevealedAt (board g') r1 c1" by (simp add: skip(2))
      from clo [OF h(1) this h(3,4)] consider
        "isRevealedAt (board g') r' c'" | "isFlaggedAt (board g) r' c'"
        | "ChainReveal r' c' \<in> set (pending g')" by blast
      then show ?thesis
      proof cases
        case 1
        then show ?thesis by (simp add: skip(2))
      next
        case 2
        then show ?thesis by simp
      next
        case 3
        from set_dequeue_rest [OF i 3] show ?thesis
        proof
          assume "ChainReveal r' c' = pending g' ! i"
          with skip(1) have e: "r' = r" "c' = c" by simp_all
          from h(4) dims neighbour_cell [OF wf, of r' c' r1 c1]
          have "cellAt (board g') r' c' \<noteq> None" by simp
          with skip(3) e have "isRevealedAt (board g') r' c' \<or> isFlaggedAt (board g') r' c'"
            by auto
          then show ?thesis by (auto simp: skip(2) revFrame_isFlaggedAt [OF fr])
        next
          assume "ChainReveal r' c' \<in> set (pending (dequeue i g'))"
          then show ?thesis by (auto simp: skip(2))
        qed
      qed
    qed
    show ?thesis
      unfolding cascInv_def
      using safe frg dims' r0' new tasks cnt clo' p
      by (simp add: skip(2); blast)
  next
    case (reveal r c cl)
    have tin: "ChainReveal r c \<in> set (pending g')" using i reveal(1) by (metis nth_mem)
    from tasks [OF tin] obtain r1 c1 where q: "cascadeRegion g r0 c0 r1 c1"
      "zeroAt (board g) r1 c1" "(r, c) \<in> set (neighbours (rows g) (cols g) r1 c1)" by blast
    have "\<not> isFlaggedAt (board g') r c" using reveal(2,4) by (simp add: isFlaggedAt_def)
    then have nf: "\<not> isFlaggedAt (board g) r c"
      by (simp add: revFrame_isFlaggedAt [OF fr])
    have nr': "\<not> isRevealedAt (board g') r c" using reveal(2,3) by (simp add: isRevealedAt_def)
    with revFrame_mono [OF fr] have nr: "\<not> isRevealedAt (board g) r c" by blast
    have reg: "cascadeRegion g r0 c0 r c" by (rule cascadeRegion.step [OF q nf nr])
    have rev: "\<And>r' c'. isRevealedAt (board (fire i g')) r' c' =
                 (if r' = r \<and> c' = c then True else isRevealedAt (board g') r' c')"
      using reveal(2) by (simp add: reveal(6) isRevealedAt_updCell)
    have "zeroAt (board g') r c \<longleftrightarrow> adjacentMines cl = 0"
      using reveal(2,5) by (simp add: zeroAt_def)
    then have zero: "zeroAt (board g) r c \<longleftrightarrow> adjacentMines cl = 0"
      by (simp add: revFrame_zeroAt [OF fr])
    have ct: "chainTasks g' r c = chainTasks g r c" by (simp add: chainTasks_def dims)
    have new': "cascadeRegion g r0 c0 r' c'"
      if "isRevealedAt (board (fire i g')) r' c'" "\<not> isRevealedAt (board g) r' c'" for r' c'
      using that new reg by (auto simp: rev split: if_splits)
    have tasks': "\<exists>r1 c1. cascadeRegion g r0 c0 r1 c1 \<and> zeroAt (board g) r1 c1 \<and>
                 (r', c') \<in> set (neighbours (rows g) (cols g) r1 c1)"
      if t: "ChainReveal r' c' \<in> set (pending (fire i g'))" for r' c'
    proof (cases "ChainReveal r' c' \<in> set (pending g')")
      case True
      then show ?thesis by (rule tasks)
    next
      case False
      with t set_dequeue [of i g'] have "adjacentMines cl = 0"
        "ChainReveal r' c' \<in> set (chainTasks g r c)"
        by (auto simp: reveal(7) ct split: if_splits)
      with reg zero show ?thesis by (auto simp: chainTasks_member)
    qed
    have cnt': "revealedCount (fire i g') + countCells isRevealed (board g) =
       revealedCount g + countCells isRevealed (board (fire i g'))"
      using cnt by (simp add: reveal(6,8) revealed_count_updCell [OF reveal(2,3)])
    have clo': "isRevealedAt (board (fire i g')) r' c' \<or> isFlaggedAt (board g) r' c' \<or>
            ChainReveal r' c' \<in> set (pending (fire i g'))"
      if h: "cascadeRegion g r0 c0 r2 c2" "isRevealedAt (board (fire i g')) r2 c2"
        "zeroAt (board g) r2 c2" "(r', c') \<in> set (neighbours (rows g) (cols g) r2 c2)"
      for r2 c2 r' c'
    proof (cases "r2 = r \<and> c2 = c")
      case True
      with h(3,4) zero show ?thesis by (auto simp: reveal(7) ct chainTasks_member)
    next
      case False
      with h(2) have "isRevealedAt (board g') r2 c2" by (auto simp: rev split: if_splits)
      from clo [OF h(1) this h(3,4)] consider
        "isRevealedAt (board g') r' c'" | "isFlaggedAt (board g) r' c'"
        | "ChainReveal r' c' \<in> set (pending g')" by blast
      then show ?thesis
      proof cases
        case 1
        then show ?thesis by (simp add: rev)
      next
        case 2
        then show ?thesis by simp
      next
        case 3
        from set_dequeue_rest [OF i 3] show ?thesis
        proof
          assume "ChainReveal r' c' = pending g' ! i"
          with reveal(1) show ?thesis by (simp add: rev)
        next
          assume "ChainReveal r' c' \<in> set (pending (dequeue i g'))"
          then show ?thesis by (auto simp: reveal(7))
        qed
      qed
    qed
    show ?thesis
      unfolding cascInv_def
      using safe frg dims' r0' new' tasks' cnt' clo'
      by (simp; blast)
  qed
qed

lemma cascInv_run:
  "cascInv g r0 c0 g' \<Longrightarrow> \<not> isRevealedAt (board g) r0 c0 \<Longrightarrow> cascInv g r0 c0 (run is g')"
  by (induction "is" arbitrary: g') (simp_all add: cascInv_fire)

lemma cascInv_complete:
  assumes inv: "cascInv g r0 c0 g'" and fresh: "\<not> isRevealedAt (board g) r0 c0"
    and e: "pending g' = []"
  shows "cascadeRegion g r0 c0 r c \<Longrightarrow> isRevealedAt (board g') r c"
proof (induction rule: cascadeRegion.induct)
  case start
  from inv show ?case by (simp add: cascInv_def)
next
  case (step r c r' c')
  from inv have clo: "\<And>r c r' c'. cascadeRegion g r0 c0 r c \<Longrightarrow> isRevealedAt (board g') r c \<Longrightarrow>
          zeroAt (board g) r c \<Longrightarrow> (r', c') \<in> set (neighbours (rows g) (cols g) r c)
        \<Longrightarrow> isRevealedAt (board g') r' c' \<or> isFlaggedAt (board g) r' c' \<or>
            ChainReveal r' c' \<in> set (pending g')"
    unfolding cascInv_def by blast
  from clo [OF step.hyps(1) step.IH step.hyps(2,3)] step.hyps(4) e show ?case by simp
qed

section \<open>Reachable states\<close>

lemma cellAt_initBoard:
  "cellAt (board (initBoard g)) r c =
     (if 0 \<le> r \<and> r < int (rows g) \<and> 0 \<le> c \<and> c < int (cols g)
      then Some \<lparr>row = r, col = c, isMine = False, isRevealed = False, isFlagged = False,
                 adjacentMines = 0\<rparr>
      else None)"
  by (auto simp: initBoard_def cellAt_def)

lemma initBoard_fields [simp]:
  "rows (initBoard g) = rows g" "cols (initBoard g) = cols g" "mines (initBoard g) = mines g"
  "timer (initBoard g) = timer g" "timerInterval (initBoard g) = timerInterval g"
  "intervals (initBoard g) = intervals g" "nextHandle (initBoard g) = nextHandle g"
  "isGameOver (initBoard g) = isGameOver g" "isFirstClick (initBoard g) = isFirstClick g"
  "totalNonMines (initBoard g) = totalNonMines g" "revealedCount (initBoard g) = revealedCount g"
  "minesLeft (initBoard g) = minesLeft g" "faceElement (initBoard g) = faceElement g"
  "pending (initBoard g) = pending g"
  by (simp_all add: initBoard_def)

lemma wf_initBoard: "wf_game (initBoard g)"
proof -
  have "length (board (initBoard g)) = rows g"
    "list_all (\<lambda>rw. length rw = cols g) (board (initBoard g))"
    by (simp_all add: initBoard_def list_all_iff)
  moreover have "list_all (\<lambda>(r, c). case cellAt (board (initBoard g)) r c of None \<Rightarrow> False
                          | Some cl \<Rightarrow> row cl = r \<and> col cl = c) (allCoords (rows g) (cols g))"
    by (auto simp: list_all_iff set_allCoords cellAt_initBoard)
  ultimately show ?thesis by (simp add: wf_game_def wf_board_def)
qed

lemma stopTimer_timer:
  "timerInterval (stopTimer g) = (if timerInterval g = Some 0 then Some 0 else None)"
  "intervals (stopTimer g) =
     (if timerInterval g = None \<or> timerInterval g = Some 0 then intervals g
      else removeAll (the (timerInterval g)) (intervals g))"
  by (auto simp: stopTimer_def split: option.splits)

lemma revealed_timer:
  "timerInterval (revealed g r c cl) =
     (if \<not> (isRevealed cl \<or> isFlagged cl) \<and> (isMine cl \<or> int (revealedCount g + 1) = totalNonMines g)
      then timerInterval (stopTimer g) else timerInterval g)"
  "intervals (revealed g r c cl) =
     (if \<not> (isRevealed cl \<or> isFlagged cl) \<and> (isMine cl \<or> int (revealedCount g + 1) = totalNonMines g)
      then intervals (stopTimer g) else intervals g)"
  by (simp_all add: revealed_def Let_def win_def stopTimer_timer)

lemma newGame_timerInv:
  assumes "\<forall>h. timerInterval g = Some h \<longrightarrow> 0 < h"
    "intervals g = (case timerInterval g of None \<Rightarrow> [] | Some h \<Rightarrow> [h])" "0 < nextHandle g"
  shows "timerInv (newGame g)"
  using assms
  by (auto simp: timerInv_def newGame_def wf_initBoard stopTimer_timer split: option.splits)

lemma revealed_timerInv:
  assumes "timerInv g" "cellAt (board g) r c = Some cl"
  shows "timerInv (revealed g r c cl)"
proof -
  from assms(1) have wf: "wf_game g" by (simp add: timerInv_def)
  have wf': "wf_game (revealed g r c cl)" by (rule revealed_wf [OF wf])
  from assms(1) wf' show ?thesis
    unfolding timerInv_def
    by (auto simp: revealed_static revealed_timer revealed_over stopTimer_timer
             split: option.splits if_splits)
qed

lemma sameButBoard_timer:
  assumes "sameButBoard g g'"
  shows "timer g' = timer g" "timerInterval g' = timerInterval g" "intervals g' = intervals g"
    "nextHandle g' = nextHandle g" "isFirstClick g' = isFirstClick g" "minesLeft g' = minesLeft g"
  using assms unfolding sameButBoard_def by (cases g, cases g', simp)+

lemma timerInv_board:
  assumes "timerInv g" "wf_game (g\<lparr>board := b\<rparr>)"
  shows "timerInv (g\<lparr>board := b\<rparr>)"
  using assms by (simp add: timerInv_def)

lemma timerInv_sameButBoard:
  assumes "timerInv g" "sameButBoard g g'" "wf_game g'"
  shows "timerInv g'"
proof -
  from sameButBoard_eq [OF assms(2)] have "g' = g\<lparr>board := board g'\<rparr>" .
  with assms(3) have "wf_game (g\<lparr>board := board g'\<rparr>)" by simp
  from timerInv_board [OF assms(1) this] sameButBoard_eq [OF assms(2)] show ?thesis by simp
qed

lemma revealCell_timerInv:
  assumes "timerInv g" "revealCell g r c ch = Inr g'"
  shows "timerInv g'"
proof -
  from assms(2) obtain cl where cl: "cellAt (board g) r c = Some cl"
    by (auto simp: revealCell_def split: option.splits)
  from assms(1) have "wf_game g" by (simp add: timerInv_def)
  from wf_revealCell [OF this cl, of ch] assms(2) have "g' = revealed g r c cl" by simp
  with revealed_timerInv [OF assms(1) cl] show ?thesis by simp
qed

lemma handleClick_timerInv:
  assumes inv: "timerInv g" and run: "handleClick g r c draws = Inr g'"
  shows "timerInv g'"
proof (cases "isGameOver g")
  case True
  with run inv show ?thesis by (simp add: handleClick_def)
next
  case False
  with run obtain cl where cl: "cellAt (board g) r c = Some cl"
    by (auto simp: handleClick_def split: option.splits)
  show ?thesis
  proof (cases "isFlagged cl \<or> isRevealed cl")
    case True
    with run False cl inv show ?thesis by (simp add: handleClick_def)
  next
    case nf: False
    show ?thesis
    proof (cases "isFirstClick g")
      case False
      with run \<open>\<not> isGameOver g\<close> cl nf have "revealCell g r c False = Inr g'"
        by (simp add: handleClick_def)
      from revealCell_timerInv [OF inv this] show ?thesis .
    next
      case True
      let ?g0 = "g\<lparr>isFirstClick := False\<rparr>"
      from run \<open>\<not> isGameOver g\<close> cl nf True obtain g1 where
        g1: "placeMines ?g0 r c draws = Inr g1" and
        rv: "revealCell (startTimer g1) r c False = Inr g'"
        by (auto simp: handleClick_def split: sum.splits)
      from inv have wf0: "wf_game ?g0" by (simp add: timerInv_def wf_game_def)
      note pm = placeMines_inv(1,2) [OF wf0 g1]
      note f1 = sameButBoard_fields [OF pm(1)] sameButBoard_timer [OF pm(1)]
      from inv True have none: "timerInterval g = None" "intervals g = []"
        by (auto simp: timerInv_def)
      have "timerInv (startTimer g1)"
        using inv True \<open>\<not> isGameOver g\<close> none pm(2)
        by (simp add: timerInv_def startTimer_def f1 wf_game_def)
      from revealCell_timerInv [OF this rv] show ?thesis .
    qed
  qed
qed

lemma handleRightClick_timerInv:
  assumes inv: "timerInv g" and run: "handleRightClick g r c = Inr g'"
  shows "timerInv g'"
proof -
  have "wf_game (g\<lparr>board := updCell (board g) r c (\<lambda>x. x\<lparr>isFlagged := \<not> isFlagged x\<rparr>)\<rparr>)"
    using inv by (simp add: timerInv_def wf_game_def wf_board_updCell)
  with inv run show ?thesis
    by (auto simp: handleRightClick_def timerInv_def wf_game_def split: if_splits option.splits)
qed

lemma tick_timerInv: "timerInv g \<Longrightarrow> timerInv (tick h g)"
  by (auto simp: timerInv_def tick_def Let_def wf_game_def split: option.splits)

lemma dequeue_timerInv: "timerInv g \<Longrightarrow> timerInv (dequeue i g)"
  by (simp add: timerInv_def)

lemma fire_timerInv:
  assumes inv: "timerInv g"
  shows "timerInv (fire i g)"
proof (cases "i < length (pending g)")
  case False
  with inv show ?thesis by (simp add: fire_beyond)
next
  case True
  from inv have wf: "wf_game g" by (simp add: timerInv_def)
  show ?thesis
  proof (cases "pending g ! i")
    case (ChainReveal r c)
    show ?thesis
    proof (cases "cellAt (board g) r c")
      case None
      with fire_chain [OF wf True ChainReveal] dequeue_timerInv [OF inv] show ?thesis by simp
    next
      case (Some cl)
      then have "cellAt (board (dequeue i g)) r c = Some cl" by simp
      from revealed_timerInv [OF dequeue_timerInv [OF inv] this]
        fire_chain [OF wf True ChainReveal] Some show ?thesis by simp
    qed
  next
    case (MineShow gen r c)
    have "wf_game ((dequeue i g)\<lparr>board := updCell (board g) r c (\<lambda>x. x\<lparr>isRevealed := True\<rparr>)\<rparr>)"
      using wf by (simp add: wf_game_def wf_board_updCell)
    from timerInv_board [OF dequeue_timerInv [OF inv] this] dequeue_timerInv [OF inv]
      fire_mine [OF True MineShow] show ?thesis by simp
  qed
qed

lemma step_timerInv:
  assumes inv: "timerInv g"
  shows "timerInv (step g e)"
proof (cases e)
  case (Click r c draws)
  with inv handleClick_timerInv [OF inv] show ?thesis
    by (auto simp: step_def split: sum.splits)
next
  case (RightClick r c)
  with inv handleRightClick_timerInv [OF inv] show ?thesis
    by (auto simp: step_def split: sum.splits)
next
  case NewGameButton
  have "timerInv (newGame g)"
    using inv by (intro newGame_timerInv) (auto simp: timerInv_def)
  with NewGameButton show ?thesis by (simp add: step_def)
next
  case (DifficultyButton d)
  obtain nr nc nm where d: "difficulties d = (nr, nc, nm)" by (cases "difficulties d")
  have "timerInv (newGame (g\<lparr>rows := nr, cols := nc, mines := nm\<rparr>))"
    using inv by (intro newGame_timerInv) (auto simp: timerInv_def)
  with DifficultyButton d show ?thesis by (simp add: step_def setDifficulty_def)
next
  case (IntervalFires h)
  with tick_timerInv [OF inv] show ?thesis by (simp add: step_def)
next
  case (TimeoutFires i)
  with fire_timerInv [OF inv] show ?thesis by (simp add: step_def)
next
  case MouseDown
  with inv show ?thesis by (simp add: step_def timerInv_def wf_game_def)
next
  case MouseUp
  with inv show ?thesis by (simp add: step_def timerInv_def wf_game_def)
qed

lemma constructed_timerInv: "timerInv constructed"
  unfolding constructed_def by (intro newGame_timerInv) simp_all

lemma exec_timerInv: "timerInv g \<Longrightarrow> timerInv (exec es g)"
  by (induction es arbitrary: g) (simp_all add: step_timerInv)

section \<open>The placement loop can end\<close>

lemma allCoords_product:
  "allCoords nr nc = map (\<lambda>(r, c). (int r, int c)) (List.product [0..<nr] [0..<nc])"
  by (simp add: allCoords_def product_concat_map map_concat comp_def)

lemma distinct_allCoords: "distinct (allCoords nr nc)"
  unfolding allCoords_product
  by (auto simp: distinct_map distinct_product inj_on_def)

lemma length_allCoords: "length (allCoords nr nc) = nr * nc"
  by (simp add: allCoords_product)

lemma excluded_few:
  assumes "distinct ps"
  shows "length (filter (\<lambda>(r, c). list_ex (\<lambda>e. row e = r \<and> col e = c) ez) ps) \<le> length ez"
proof -
  let ?ys = "filter (\<lambda>(r, c). list_ex (\<lambda>e. row e = r \<and> col e = c) ez) ps"
  have "set ?ys \<subseteq> (\<lambda>e. (row e, col e)) ` set ez" by (auto simp: list_ex_iff)
  then have "card (set ?ys) \<le> card ((\<lambda>e. (row e, col e)) ` set ez)"
    by (intro card_mono) auto
  also have "\<dots> \<le> card (set ez)" by (rule card_image_le) simp
  also have "\<dots> \<le> length ez" by (rule card_length)
  finally have "card (set ?ys) \<le> length ez" .
  moreover have "distinct ?ys" using assms by simp
  ultimately show ?thesis using distinct_card [of ?ys] by (simp del: set_filter)
qed

lemma eligible_updCell:
  assumes "(r, c) \<notin> set ps"
  shows "eligible (g\<lparr>board := updCell (board g) r c (\<lambda>x. x\<lparr>isMine := True\<rparr>)\<rparr>) ez ps =
         eligible g ez ps"
  unfolding eligible_def
  by (rule filter_cong [OF refl]) (use assms in \<open>auto simp: isMineAt_updCell_mine\<close>)

lemma placeLoop_defined:
  "wf_game g \<Longrightarrow> distinct ps \<Longrightarrow> set ps \<subseteq> set (allCoords (rows g) (cols g)) \<Longrightarrow>
   mines g \<le> k + length (eligible g ez ps) \<Longrightarrow> \<exists>g'. placeLoop g ez k ps = Inr g'"
proof (induction g ez k ps rule: placeLoop.induct)
  case (1 g ez k)
  then show ?case by (simp add: eligible_def)
next
  case (2 g ez k r c ps)
  show ?case
  proof (cases "k < mines g")
    case False
    then show ?thesis by simp
  next
    case lt: True
    from "2.prems"(3) have "(r, c) \<in> set (allCoords (rows g) (cols g))" by simp
    with wf_board_cellAt [OF "2.prems"(1) [unfolded wf_game_def], of r c]
    obtain cl where cl: "cellAt (board g) r c = Some cl" by (auto simp: set_allCoords)
    from "2.prems"(2) have d: "distinct ps" "(r, c) \<notin> set ps" by simp_all
    from "2.prems"(3) have sub: "set ps \<subseteq> set (allCoords (rows g) (cols g))" by simp
    show ?thesis
    proof (cases "\<not> isMine cl \<and> \<not> list_ex (\<lambda>e. row e = r \<and> col e = c) ez")
      case True
      let ?g1 = "g\<lparr>board := updCell (board g) r c (\<lambda>x. x\<lparr>isMine := True\<rparr>)\<rparr>"
      have wf1: "wf_game ?g1" using "2.prems"(1) by (simp add: wf_game_def wf_board_updCell)
      have "eligible g ez ((r, c) # ps) = (r, c) # eligible g ez ps"
        using True cl by (simp add: eligible_def isMineAt_def)
      with "2.prems"(4) have "mines ?g1 \<le> Suc k + length (eligible ?g1 ez ps)"
        by (simp add: eligible_updCell [OF d(2)])
      from "2.IH"(1) [OF lt cl True wf1 d(1) _ this] sub lt cl True show ?thesis by simp
    next
      case False
      then have "eligible g ez ((r, c) # ps) = eligible g ez ps"
        using cl by (auto simp: eligible_def isMineAt_def)
      with "2.prems"(4) have "mines g \<le> k + length (eligible g ez ps)" by simp
      from "2.IH"(2) [OF lt cl False "2.prems"(1) d(1) sub this] lt cl False show ?thesis by auto
    qed
  qed
qed

lemma getAdjacentCells_length:
  "getAdjacentCells g r c = Inr adj \<Longrightarrow> length adj \<le> 8"
proof -
  assume "getAdjacentCells g r c = Inr adj"
  then have "cellsAt (board g) (neighbours (rows g) (cols g) r c) = Some adj"
    by (auto simp: getAdjacentCells_def split: option.splits)
  from cellsAt_Some [OF this] have "length adj = length (neighbours (rows g) (cols g) r c)"
    by (metis length_map)
  with length_neighbours [of "rows g" "cols g" r c] show ?thesis by simp
qed

lemma placeMines_can_return:
  assumes wf: "wf_game g" and nm: "countCells isMine (board g) = 0"
    and few: "int (mines g) < int (rows g) * int (cols g) - 9"
  shows "\<exists>draws g'. placeMines g er ec draws = Inr g'"
proof -
  from wf_getAdjacentCells [OF wf] obtain adj where adj: "getAdjacentCells g er ec = Inr adj"
    by blast
  let ?ez = "adj @ [\<lparr>row = er, col = ec, isMine = False,
                   isRevealed = False, isFlagged = False, adjacentMines = 0\<rparr>]"
  let ?ps = "allCoords (rows g) (cols g)"
  have ez: "length ?ez \<le> 9" using getAdjacentCells_length [OF adj] by simp
  define P where "P = (\<lambda>p. case p of (r, c) \<Rightarrow> list_ex (\<lambda>e. row e = r \<and> col e = c) ?ez)"
  have el: "eligible g ?ez ?ps = filter (\<lambda>p. \<not> P p) ?ps"
    unfolding eligible_def P_def using no_mines_isMineAt [OF nm] by (intro filter_cong) auto
  have "length (filter P ?ps) \<le> length ?ez"
    unfolding P_def by (rule excluded_few [OF distinct_allCoords])
  from this ez have "length (filter P ?ps) \<le> 9" by (rule order_trans)
  moreover have "length (filter P ?ps) + length (filter (\<lambda>p. \<not> P p) ?ps) = rows g * cols g"
    by (simp add: sum_length_filter_compl length_allCoords)
  ultimately have "rows g * cols g \<le> length (eligible g ?ez ?ps) + 9"
    unfolding el by arith
  then have "int (rows g * cols g) \<le> int (length (eligible g ?ez ?ps) + 9)"
    by (rule iffD2 [OF of_nat_le_iff])
  then have "int (rows g) * int (cols g) \<le> int (length (eligible g ?ez ?ps)) + 9" by simp
  with few have "mines g \<le> 0 + length (eligible g ?ez ?ps)" by simp
  from placeLoop_defined [OF wf distinct_allCoords subset_refl this] obtain g1 where
    g1: "placeLoop g ?ez 0 ?ps = Inr g1" ..
  have "0 \<le> mines g" by simp
  from placeLoop_inv [OF g1 wf this] have "wf_game g1" by blast
  from calculateAdjacentMines_defined [OF this] obtain g' where
    "calculateAdjacentMines g1 = Inr g'" ..
  with adj g1 have "placeMines g er ec ?ps = Inr g'" by (simp add: placeMines_def)
  then show ?thesis by blast
qed

section \<open>A mine clicked during a cascade\<close>

text \<open>
  The click on an unflagged, unrevealed mine of a game in progress returns a lost game. The
  mines are revealed by timeouts: the outstanding timeouts can be run to the end, and however
  they are run, once none is outstanding every mine of the board is revealed.
\<close>

lemma reveal_mine_lost_and_shown:
  assumes "wf_game g" and "\<not> isGameOver g" and "\<not> isFirstClick g"
    and "cellAt (board g) r c = Some cl" and "isMine cl" and "\<not> isRevealed cl" and "\<not> isFlagged cl"
  shows "\<exists>g'. handleClick g r c draws = Inr g' \<and> lost g' \<and> \<not> won g' \<and>
           (\<exists>is. pending (run is g') = []) \<and>
           (\<forall>is r' c'. pending (run is g') = [] \<and> isMineAt (board g) r' c' \<longrightarrow>
               isRevealedAt (board (run is g')) r' c')"
proof -
  let ?g' = "revealed g r c cl"
  let ?g1 = "g\<lparr>board := updCell (board g) r c (\<lambda>x. x\<lparr>isRevealed := True\<rparr>)\<rparr>"
  from assms have hc: "handleClick g r c draws = Inr ?g'"
    by (simp add: handleClick_def wf_revealCell)
  have wf': "wf_game ?g'" by (rule revealed_wf [OF assms(1)])
  have wf1: "wf_game ?g1" using assms(1) by (simp add: wf_game_def wf_board_updCell)
  have lost: "lost ?g'" "\<not> won ?g'" using assms
    by (simp_all add: lost_def won_def revealed_over revealed_face)
  have fr: "revFrame (board g) (board ?g')" by (rule revealed_revFrame)
  have shown: "isRevealedAt (board (run is ?g')) r' c'"
    if e: "pending (run is ?g') = []" and m: "isMineAt (board g) r' c'" for "is" r' c'
  proof -
    from m have m1: "isMineAt (board ?g1) r' c'"
      by (simp add: revFrame_isMineAt [OF revFrame_updCell])
    from m fr have m': "isMineAt (board ?g') r' c'" by (simp add: revFrame_isMineAt)
    from mineTasks_member [OF wf1 m1] assms
    have "MineShow (boardGen ?g') r' c' \<in> set (pending ?g')"
      by (simp add: revealed_pending revealed_static)
    then have "mineShown ?g' r' c'" by (simp add: mineShown_def)
    from run_mineShown [OF wf' m' this, of "is"] e show ?thesis
      by (simp add: mineShown_def)
  qed
  from hc lost drain_exists [of ?g'] shown show ?thesis by blast
qed

text \<open>
  \<^verbatim>\<open>revealCell\<close> adds one to \<^verbatim>\<open>revealedCount\<close> before it tests \<^verbatim>\<open>isMine\<close>, and its deferred
  calls test neither \<^verbatim>\<open>isGameOver\<close>, as the two click handlers do, nor anything else about the
  game. On the easy board, after the click on the mine the cascade goes on: the count is 71
  with the 70th cell that is not a mine, \<^verbatim>\<open>win\<close> runs, and no timeout is left.
\<close>

lemma exampleWonAfterLoss_outcome:
  "outcome exampleWonAfterLoss = (True, Cool, 71, 71, 9, 9, 10, 70, 0)"
  by code_simp

section \<open>Mine placement (claim C1)\<close>

text \<open>
  Claim C1. Let the board be well formed and without mines, as \<^verbatim>\<open>initBoard\<close> leaves it. When
  \<^verbatim>\<open>mines < rows * cols - 9\<close> there are random pairs with which
  \<^verbatim>\<open>placeMines(excludeRow, excludeCol)\<close> returns; and whenever it returns, exactly \<^verbatim>\<open>mines\<close>
  cells of the board carry the mine flag, and no cell at distance at most one from the
  excluded cell (the cell itself and its up to eight neighbours) is a mine.
\<close>

theorem placeMines_count_and_exclusion:
  assumes "wf_game g" and "countCells isMine (board g) = 0"
  shows "(int (mines g) < int (rows g) * int (cols g) - 9 \<longrightarrow>
            (\<exists>draws g'. placeMines g excludeRow excludeCol draws = Inr g')) \<and>
         (\<forall>draws g'. placeMines g excludeRow excludeCol draws = Inr g' \<longrightarrow>
            countCells isMine (board g') = mines g \<and>
            (\<forall>r c. \<bar>r - excludeRow\<bar> \<le> 1 \<and> \<bar>c - excludeCol\<bar> \<le> 1
                   \<longrightarrow> \<not> isMineAt (board g') r c))"
proof -
  have "countCells isMine (board g') = mines g \<and>
        (\<forall>r c. \<bar>r - excludeRow\<bar> \<le> 1 \<and> \<bar>c - excludeCol\<bar> \<le> 1 \<longrightarrow> \<not> isMineAt (board g') r c)"
    if run: "placeMines g excludeRow excludeCol draws = Inr g'" for draws g'
    using placeMines_inv(3,4) [OF assms(1) run] assms(2) no_mines_isMineAt [OF assms(2)]
    by simp
  with placeMines_can_return [OF assms, of excludeRow excludeCol] show ?thesis by blast
qed

theorem placeMines_witness:
  "int (mines exampleStart) < int (rows exampleStart) * int (cols exampleStart) - 9 \<and>
   \<not> isl (placeMines exampleStart 4 4 exampleDraws) \<and>
   countCells isMine (board (projr (placeMines exampleStart 4 4 exampleDraws))) = 10 \<and>
   \<not> isMineAt (board (projr (placeMines exampleStart 4 4 exampleDraws))) 3 5"
proof -
  have wf: "wf_game exampleStart" by code_simp
  have nm: "countCells isMine (board exampleStart) = 0" by code_simp
  have few: "int (mines exampleStart) < int (rows exampleStart) * int (cols exampleStart) - 9"
    by code_simp
  have ok: "\<not> isl (placeMines exampleStart 4 4 exampleDraws)" by code_simp
  then have run: "placeMines exampleStart 4 4 exampleDraws =
                  Inr (projr (placeMines exampleStart 4 4 exampleDraws))" by simp
  have m: "mines exampleStart = 10" by code_simp
  from placeMines_count_and_exclusion [OF wf nm, of 4 4] run
  have "countCells isMine (board (projr (placeMines exampleStart 4 4 exampleDraws))) =
          mines exampleStart \<and>
        (\<forall>r c. \<bar>r - 4\<bar> \<le> 1 \<and> \<bar>c - 4\<bar> \<le> 1 \<longrightarrow>
           \<not> isMineAt (board (projr (placeMines exampleStart 4 4 exampleDraws))) r c)"
    by blast
  with few ok m show ?thesis by simp
qed

section \<open>The cascade (claim C2)\<close>

text \<open>
  Claim C2 says that every boundary cell of the revealed region has a count above zero or lies
  at a board edge. A flag stops the cascade as well: with a flag at (4, 5), the cascade of
  the click at (4, 4) ends with the cell (4, 4) revealed, of count zero, away from every edge,
  and next to the unrevealed cell (4, 5).
\<close>

theorem cascade_boundary_counterexample:
  "pending exampleFlagCascade = [] \<and>
   \<not> isRevealedAt (board exampleFlagStart) 4 4 \<and>
   isRevealedAt (board exampleFlagCascade) 4 4 \<and>
   zeroAt (board exampleFlagCascade) 4 4 \<and>
   0 < (4::int) \<and> (4::int) < int (rows exampleFlagCascade) - 1 \<and>
   (4::int) < int (cols exampleFlagCascade) - 1 \<and>
   (4, 5) \<in> set (neighbours (rows exampleFlagCascade) (cols exampleFlagCascade) 4 4) \<and>
   \<not> isRevealedAt (board exampleFlagCascade) 4 5"
  by code_simp

text \<open>
  Claim C2, amended. Let the board be well formed and consistent, no timeout outstanding, and
  let \<^verbatim>\<open>revealCell\<close> be called on an unrevealed, unflagged cell that is not a mine and has count
  zero. Firing timeouts always comes to an end (\<open>wf fireRel\<close>), in whatever order. At every
  moment the newly revealed cells lie in the region reachable from the clicked cell through
  unflagged, unrevealed neighbours of zero cells, and \<^verbatim>\<open>revealedCount\<close> has grown by the
  number of newly revealed cells (each is counted once). When no timeout is left, the whole
  region is revealed, and every neighbour of a zero cell of the region is revealed or flagged:
  a boundary cell has a count above zero, lies at an edge, or is next to a flag.
\<close>

theorem cascade_region:
  assumes "wf_game g" and "consistent g" and "pending g = []"
    and "cellAt (board g) r c = Some cl" and "\<not> isRevealed cl" and "\<not> isFlagged cl"
    and "\<not> isMine cl" and "adjacentMines cl = 0"
  shows "wf fireRel \<and>
    (\<exists>g1. revealCell g r c False = Inr g1 \<and>
      (\<exists>is. pending (run is g1) = []) \<and>
      (\<forall>is.
         (\<forall>r' c'. isRevealedAt (board (run is g1)) r' c' \<and> \<not> isRevealedAt (board g) r' c'
                   \<longrightarrow> cascadeRegion g r c r' c') \<and>
         revealedCount (run is g1) + countCells isRevealed (board g) =
           revealedCount g + countCells isRevealed (board (run is g1)) \<and>
         (pending (run is g1) = [] \<longrightarrow>
            (\<forall>r' c'. cascadeRegion g r c r' c' \<longrightarrow> isRevealedAt (board (run is g1)) r' c') \<and>
            (\<forall>r1 c1 r' c'. cascadeRegion g r c r1 c1 \<and> zeroAt (board g) r1 c1 \<and>
                 (r', c') \<in> set (neighbours (rows g) (cols g) r1 c1)
               \<longrightarrow> isRevealedAt (board (run is g1)) r' c' \<or> isFlaggedAt (board g) r' c'))))"
proof -
  let ?g1 = "revealed g r c cl"
  have fresh: "\<not> isRevealedAt (board g) r c" using assms(4,5) by (simp add: isRevealedAt_def)
  have inv: "cascInv g r c (run is ?g1)" for "is"
    by (rule cascInv_run [OF cascInv_init [OF assms] fresh])
  have a: "cascadeRegion g r c r' c'"
    if "isRevealedAt (board (run is ?g1)) r' c' \<and> \<not> isRevealedAt (board g) r' c'" for "is" r' c'
    using inv [of "is"] that unfolding cascInv_def by blast
  have b: "revealedCount (run is ?g1) + countCells isRevealed (board g) =
           revealedCount g + countCells isRevealed (board (run is ?g1))" for "is"
    using inv [of "is"] unfolding cascInv_def by blast
  have c: "isRevealedAt (board (run is ?g1)) r' c'"
    if "pending (run is ?g1) = []" "cascadeRegion g r c r' c'" for "is" r' c'
    by (rule cascInv_complete [OF inv fresh that])
  have d: "isRevealedAt (board (run is ?g1)) r' c' \<or> isFlaggedAt (board g) r' c'"
    if e: "pending (run is ?g1) = []" and h: "cascadeRegion g r c r1 c1 \<and> zeroAt (board g) r1 c1 \<and>
                 (r', c') \<in> set (neighbours (rows g) (cols g) r1 c1)" for "is" r1 c1 r' c'
  proof (cases "isFlaggedAt (board g) r' c' \<or> isRevealedAt (board g) r' c'")
    case True
    from inv [of "is"] have "revFrame (board g) (board (run is ?g1))"
      unfolding cascInv_def by blast
    from revFrame_mono [OF this] True show ?thesis by blast
  next
    case False
    with h have "cascadeRegion g r c r' c'" by (blast intro: cascadeRegion.step)
    from c [OF e this] show ?thesis ..
  qed
  from wf_revealCell [OF assms(1,4), of False] wf_fireRel drain_exists [of ?g1] a b c d
  show ?thesis by blast
qed

theorem cascade_region_witness:
  "\<not> isl (revealCell examplePlaced 4 4 False) \<and>
   revealedCount (run [0, 1] (projr (revealCell examplePlaced 4 4 False))) +
     countCells isRevealed (board examplePlaced) =
   revealedCount examplePlaced +
     countCells isRevealed (board (run [0, 1] (projr (revealCell examplePlaced 4 4 False))))"
proof -
  let ?cl = "the (cellAt (board examplePlaced) 4 4)"
  have h: "wf_game examplePlaced" "consistent examplePlaced" "pending examplePlaced = []"
    "cellAt (board examplePlaced) 4 4 = Some ?cl" "\<not> isRevealed ?cl" "\<not> isFlagged ?cl"
    "\<not> isMine ?cl" "adjacentMines ?cl = 0"
    by code_simp+
  from cascade_region [OF h] obtain g1 where
    g1: "revealCell examplePlaced 4 4 False = Inr g1" and
    a: "\<forall>is. revealedCount (run is g1) + countCells isRevealed (board examplePlaced) =
           revealedCount examplePlaced + countCells isRevealed (board (run is g1))"
    by blast
  from a have "revealedCount (run [0, 1] g1) + countCells isRevealed (board examplePlaced) =
           revealedCount examplePlaced + countCells isRevealed (board (run [0, 1] g1))" by blast
  with g1 show ?thesis by simp
qed

section \<open>Winning (claim C3)\<close>

text \<open>
  Claim C3 says that the game is won exactly when the number of revealed cells equals
  \<open>rows * cols - mines\<close>, the number of cells that are not mines. When the mine at (0, 1) is
  clicked while the cascade of the first click at (4, 4) is outstanding, the mine is counted
  and the cascade goes on after the loss: the game ends won with \<^verbatim>\<open>revealedCount\<close> at 71,
  while 70 of the 71 cells that are not mines are revealed.
\<close>

theorem won_with_safe_cell_unrevealed:
  "won exampleWonAfterLoss \<and>
   int (revealedCount exampleWonAfterLoss) =
     int (rows exampleWonAfterLoss) * int (cols exampleWonAfterLoss) -
     int (mines exampleWonAfterLoss) \<and>
   int (rows exampleWonAfterLoss) * int (cols exampleWonAfterLoss) -
     int (mines exampleWonAfterLoss) = 71 \<and>
   countCells (\<lambda>cl. isRevealed cl \<and> \<not> isMine cl) (board exampleWonAfterLoss) = 70 \<and>
   pending exampleWonAfterLoss = []"
  using exampleWonAfterLoss_outcome by (simp add: outcome_def won_def)

section \<open>Revealing a mine (claim C4)\<close>

text \<open>
  Claim C4 says that the reveal of a mine makes the game lost and never won. In the easy game
  in progress after the first click at (4, 4), the click on the unflagged, unrevealed mine at
  (0, 1) returns a lost game (so far the claim, see \<open>reveal_mine_lost_and_shown\<close>). The
  cascade of the first click is still outstanding; it goes on, counts on from the count that
  includes the mine, and when its timeouts have fired the same game is won and not lost.
\<close>

theorem mine_reveal_ends_won:
  "\<not> isGameOver exampleClicked \<and> \<not> isFirstClick exampleClicked \<and>
   isMineAt (board exampleClicked) 0 1 \<and> \<not> isRevealedAt (board exampleClicked) 0 1 \<and>
   \<not> isFlaggedAt (board exampleClicked) 0 1 \<and>
   \<not> isl (handleClick exampleClicked 0 1 []) \<and> lost exampleLost \<and>
   won exampleWonAfterLoss \<and> \<not> lost exampleWonAfterLoss"
proof -
  have "\<not> isGameOver exampleClicked \<and> \<not> isFirstClick exampleClicked \<and>
        isMineAt (board exampleClicked) 0 1 \<and> \<not> isRevealedAt (board exampleClicked) 0 1 \<and>
        \<not> isFlaggedAt (board exampleClicked) 0 1 \<and>
        \<not> isl (handleClick exampleClicked 0 1 []) \<and> lost exampleLost"
    by code_simp
  moreover have "won exampleWonAfterLoss \<and> \<not> lost exampleWonAfterLoss"
    using exampleWonAfterLoss_outcome by (simp add: outcome_def won_def lost_def)
  ultimately show ?thesis by blast
qed

section \<open>Adjacency counts (claim C5)\<close>

text \<open>
  Claim C5. On a well-formed board \<^verbatim>\<open>calculateAdjacentMines\<close> (the last step of
  \<^verbatim>\<open>placeMines\<close>) returns, and afterwards the count stored in every cell that is not a mine
  is the number of mines among the cells of the board at distance at most one from it, the
  cell itself excluded; that number is at most 8.
\<close>

theorem adjacentMines_moore:
  assumes "wf_game g"
  shows "\<exists>g'. calculateAdjacentMines g = Inr g' \<and>
           (\<forall>r c cl. cellAt (board g') r c = Some cl \<and> \<not> isMine cl \<longrightarrow>
              adjacentMines cl = card (mooreMines (rows g') (cols g') (board g') r c) \<and>
              adjacentMines cl \<le> 8)"
proof -
  from calculateAdjacentMines_defined [OF assms] obtain g' where
    run: "calculateAdjacentMines g = Inr g'" ..
  have "adjacentMines cl = card (mooreMines (rows g') (cols g') (board g') r c) \<and>
        adjacentMines cl \<le> 8"
    if "cellAt (board g') r c = Some cl" "\<not> isMine cl" for r c cl
  proof -
    from calculateAdjacentMines_countOk [OF assms run, of r c] that
    have "adjacentMines cl = mineNeighbours (rows g') (cols g') (board g') r c"
      by (simp add: countOk_def)
    then show ?thesis
      using mineNeighbours_le [of "rows g'" "cols g'" "board g'" r c]
      by (simp add: mineNeighbours_card)
  qed
  with run show ?thesis by blast
qed

theorem adjacentMines_moore_witness:
  "\<not> isl (calculateAdjacentMines exampleMined) \<and>
   adjacentMines (the (cellAt (board (projr (calculateAdjacentMines exampleMined))) 1 2)) =
     card (mooreMines 9 9 (board (projr (calculateAdjacentMines exampleMined))) 1 2) \<and>
   adjacentMines (the (cellAt (board (projr (calculateAdjacentMines exampleMined))) 1 2)) = 4"
proof -
  have wf: "wf_game exampleMined" by code_simp
  let ?g = "projr (calculateAdjacentMines exampleMined)"
  from adjacentMines_moore [OF wf] obtain g' where
    g': "calculateAdjacentMines exampleMined = Inr g'" and
    all: "\<forall>r c cl. cellAt (board g') r c = Some cl \<and> \<not> isMine cl \<longrightarrow>
              adjacentMines cl = card (mooreMines (rows g') (cols g') (board g') r c) \<and>
              adjacentMines cl \<le> 8"
    by blast
  from g' have eq: "g' = ?g" by simp
  have c: "cellAt (board ?g) 1 2 = Some (the (cellAt (board ?g) 1 2))" by code_simp
  have nm: "\<not> isMine (the (cellAt (board ?g) 1 2))" by code_simp
  have d: "rows ?g = 9" "cols ?g = 9" by code_simp+
  have v: "adjacentMines (the (cellAt (board ?g) 1 2)) = 4" by code_simp
  from all [unfolded eq] c nm d v g' show ?thesis by (metis sum.disc(2))
qed

section \<open>Revealing a revealed or flagged cell (claim C6)\<close>

text \<open>
  Claim C6. When the cell at the given position is already revealed or is flagged, the click
  handler and \<^verbatim>\<open>revealCell\<close> (direct or deferred) return the game they were given: board,
  revealed-count, remaining-mine counter, game-over flag and every other field are unchanged.
\<close>

theorem reveal_noop:
  assumes "cellAt (board g) r c = Some cl" and "isRevealed cl \<or> isFlagged cl"
  shows "handleClick g r c draws = Inr g \<and> revealCell g r c isChain = Inr g"
  using assms by (auto simp: handleClick_def revealCell_def)

theorem reveal_noop_witness:
  "isFlagged (the (cellAt (board exampleFlagged) 2 3)) \<and>
   handleClick exampleFlagged 2 3 exampleDraws = Inr exampleFlagged \<and>
   revealCell exampleFlagged 2 3 True = Inr exampleFlagged"
proof -
  have c: "cellAt (board exampleFlagged) 2 3 = Some (the (cellAt (board exampleFlagged) 2 3))"
    by code_simp
  have f: "isFlagged (the (cellAt (board exampleFlagged) 2 3))" by code_simp
  from reveal_noop [OF c, of exampleDraws True] f show ?thesis by simp
qed

section \<open>Toggling a flag (claim C7)\<close>

text \<open>
  Claim C7 says that a toggle on an unrevealed cell always flips the flag. After a lost game
  the cell (0, 0) is unrevealed and unflagged, and \<^verbatim>\<open>handleRightClick\<close> leaves both the flag
  and the counter as they are: its first statement returns when the game is over.
\<close>

theorem toggle_when_over_counterexample:
  "isGameOver exampleLost \<and>
   \<not> isRevealed (the (cellAt (board exampleLost) 0 0)) \<and>
   \<not> isFlagged (the (cellAt (board exampleLost) 0 0)) \<and>
   \<not> isFlagged (the (cellAt (board (projr (handleRightClick exampleLost 0 0))) 0 0)) \<and>
   minesLeft (projr (handleRightClick exampleLost 0 0)) = minesLeft exampleLost"
  by code_simp

text \<open>
  Claim C7, amended. When the game is over or the cell is revealed, \<^verbatim>\<open>handleRightClick\<close> is a
  no-op. Otherwise it flips the flag of that cell, changes no other cell and no other field, and
  adds \<open>- 1\<close> (flagging) or \<open>1\<close> (unflagging) to \<^verbatim>\<open>minesLeft\<close>, an integer without a lower
  bound: with ten flags set on the easy board an eleventh makes it \<open>- 1\<close>.
\<close>

theorem toggleFlag_effect:
  assumes "cellAt (board g) r c = Some cl"
  shows "(isGameOver g \<or> isRevealed cl \<longrightarrow> handleRightClick g r c = Inr g) \<and>
         (\<not> isGameOver g \<and> \<not> isRevealed cl \<longrightarrow>
            (\<exists>g'. handleRightClick g r c = Inr g' \<and>
                  cellAt (board g') r c = Some (cl\<lparr>isFlagged := \<not> isFlagged cl\<rparr>) \<and>
                  (\<forall>r' c'. (r', c') \<noteq> (r, c) \<longrightarrow> cellAt (board g') r' c' = cellAt (board g) r' c') \<and>
                  minesLeft g' = minesLeft g + (if isFlagged cl then 1 else - 1) \<and>
                  g'\<lparr>board := board g, minesLeft := minesLeft g\<rparr> = g))"
  using assms by (auto simp: handleRightClick_def cellAt_updCell)

theorem toggleFlag_effect_witness:
  "minesLeft exampleTenFlags = 0 \<and>
   minesLeft (projr (handleRightClick exampleTenFlags 1 1)) = - 1 \<and>
   isFlagged (the (cellAt (board (projr (handleRightClick exampleTenFlags 1 1))) 1 1))"
proof -
  let ?cl = "the (cellAt (board exampleTenFlags) 1 1)"
  have c: "cellAt (board exampleTenFlags) 1 1 = Some ?cl" by code_simp
  have h: "\<not> isGameOver exampleTenFlags" "\<not> isRevealed ?cl" "\<not> isFlagged ?cl"
    "minesLeft exampleTenFlags = 0" by code_simp+
  from toggleFlag_effect [OF c] h obtain g' where
    g': "handleRightClick exampleTenFlags 1 1 = Inr g'"
      "cellAt (board g') 1 1 = Some (?cl\<lparr>isFlagged := \<not> isFlagged ?cl\<rparr>)"
      "minesLeft g' = minesLeft exampleTenFlags + (if isFlagged ?cl then 1 else - 1)"
    by blast
  with h show ?thesis by simp
qed

section \<open>Positions outside the board (claim C8)\<close>

text \<open>
  Claim C8 says that a request outside the board is rejected with an out-of-bounds signal and
  without an undefined access. The handlers check no range: at (9, 0) the lookup
  \<^verbatim>\<open>this.board[row][col]\<close> itself is undefined and the handler stops with the \<^verbatim>\<open>TypeError\<close> of
  reading a property of it; once the game is over the same request returns normally.
\<close>

theorem out_of_range_counterexample:
  "cellAt (board constructed) 9 0 = None \<and>
   handleClick constructed 9 0 exampleDraws = Inl TypeError \<and>
   handleRightClick constructed 0 (- 1) = Inl TypeError \<and>
   handleClick exampleLost 9 0 exampleDraws = Inr exampleLost \<and>
   handleRightClick exampleLost 0 (- 1) = Inr exampleLost"
  by code_simp

text \<open>
  Claim C8, amended. On a well-formed board a position outside the ranges \<open>0 \<le> r < rows\<close>,
  \<open>0 \<le> c < cols\<close> has no cell. While the game is not over, \<^verbatim>\<open>handleClick\<close> and
  \<^verbatim>\<open>handleRightClick\<close> stop there with a \<^verbatim>\<open>TypeError\<close>, which they raise before any assignment;
  once the game is over they return without looking at the board.
\<close>

theorem out_of_range_request:
  assumes "wf_game g" and "\<not> (0 \<le> r \<and> r < int (rows g) \<and> 0 \<le> c \<and> c < int (cols g))"
  shows "cellAt (board g) r c = None \<and>
         handleClick g r c draws = (if isGameOver g then Inr g else Inl TypeError) \<and>
         handleRightClick g r c = (if isGameOver g then Inr g else Inl TypeError)"
proof -
  from wf_board_cellAt [OF assms(1) [unfolded wf_game_def], of r c] assms(2)
  have "cellAt (board g) r c = None" by auto
  then show ?thesis by (simp add: handleClick_def handleRightClick_def)
qed

theorem out_of_range_request_witness:
  "cellAt (board constructed) 4 9 = None \<and>
   handleClick constructed 4 9 exampleDraws = Inl TypeError \<and>
   handleRightClick constructed 4 9 = Inl TypeError"
proof -
  have wf: "wf_game constructed" by code_simp
  have r: "\<not> (0 \<le> (4::int) \<and> (4::int) < int (rows constructed) \<and>
               0 \<le> (9::int) \<and> (9::int) < int (cols constructed))" by code_simp
  have o: "\<not> isGameOver constructed" by code_simp
  from out_of_range_request [OF wf r, of exampleDraws] o show ?thesis by simp
qed

section \<open>The timer (claim C9)\<close>

text \<open>
  Claim C9. In every state \<open>g\<close> that a constructed game reaches through clicks, buttons,
  interval ticks and timeouts: the timer is at most 999, and 0 until the first click; while
  the game is in progress exactly one interval is registered and its tick sets the timer to
  \<open>min 999 (timer + 1)\<close> (one more, capped at 999); before the first click and once the game
  is over no interval is registered and a tick changes nothing, which lasts until a first
  click of a new game; \<^verbatim>\<open>newGame\<close> deregisters the interval and sets the timer to 0. A tick
  is one firing of the interval callback; that firings are a second apart is not modelled.
\<close>

theorem timer_behaviour:
  assumes "g = exec evs constructed"
  shows "timer g \<le> 999 \<and> (isFirstClick g \<longrightarrow> timer g = 0) \<and>
         (\<not> isGameOver g \<and> \<not> isFirstClick g \<longrightarrow>
            (\<exists>h. intervals g = [h] \<and> timer (tick h g) = min 999 (timer g + 1))) \<and>
         (isGameOver g \<or> isFirstClick g \<longrightarrow> intervals g = [] \<and> (\<forall>h. tick h g = g)) \<and>
         timer (newGame g) = 0 \<and> timerInterval (newGame g) = None \<and> intervals (newGame g) = []"
proof -
  have inv: "timerInv g" unfolding assms by (rule exec_timerInv [OF constructed_timerInv])
  have "timerInv (newGame g)"
    using inv by (intro newGame_timerInv) (auto simp: timerInv_def)
  then have n: "timer (newGame g) = 0" "timerInterval (newGame g) = None" "intervals (newGame g) = []"
    by (auto simp: timerInv_def newGame_def)
  have p: "\<exists>h. intervals g = [h] \<and> timer (tick h g) = min 999 (timer g + 1)"
    if "\<not> isGameOver g \<and> \<not> isFirstClick g"
  proof -
    from inv that obtain h where "timerInterval g = Some h" "intervals g = [h]"
      by (auto simp: timerInv_def)
    then show ?thesis by (auto simp: tick_def Let_def)
  qed
  have q: "intervals g = [] \<and> (\<forall>h. tick h g = g)" if "isGameOver g \<or> isFirstClick g"
  proof -
    from inv that have "intervals g = []" by (auto simp: timerInv_def)
    then show ?thesis by (simp add: tick_def)
  qed
  from inv n p q show ?thesis by (simp add: timerInv_def)
qed

theorem timer_behaviour_witness:
  "timer (exec [Click 4 4 exampleDraws] constructed) = 0 \<and>
   intervals (exec [Click 4 4 exampleDraws] constructed) = [1] \<and>
   timer (tick 1 (exec [Click 4 4 exampleDraws] constructed)) = 1"
proof -
  let ?g = "exec [Click 4 4 exampleDraws] constructed"
  have h: "\<not> isGameOver ?g \<and> \<not> isFirstClick ?g" by code_simp
  have v: "timer ?g = 0" "intervals ?g = [1]" by code_simp+
  from timer_behaviour [OF refl, of "[Click 4 4 exampleDraws]"] h obtain k where
    "intervals ?g = [k]" "timer (tick k ?g) = min 999 (timer ?g + 1)" by blast
  with v show ?thesis by simp
qed

section \<open>The cascade and mines (claim C10)\<close>

text \<open>
  Claim C10 says that a cascade reveals no mine, so that only a direct reveal of a mine loses
  the game. \<open>cascade_reveals_no_mine\<close> shows this as long as every outstanding timeout was
  queued on the current board. \<^verbatim>\<open>newGame\<close> stops the interval but cancels no timeout: a click
  at (4, 4), the New Game button and a first click at (0, 0) whose placement puts a mine at
  (3, 3) leave the timeout \<^verbatim>\<open>revealCell(3, 3, true)\<close> of the first cascade outstanding, and
  when it fires it reveals that mine and the game is lost.
\<close>

theorem stale_cascade_loses:
  "\<not> lost (exec [Click 4 4 exampleTightDraws, NewGameButton,
                   Click 0 0 exampleSecondDraws] constructed) \<and>
   pending (exec [Click 4 4 exampleTightDraws, NewGameButton,
                  Click 0 0 exampleSecondDraws] constructed) ! 0 = ChainReveal 3 3 \<and>
   isMineAt (board (exec [Click 4 4 exampleTightDraws, NewGameButton,
                          Click 0 0 exampleSecondDraws] constructed)) 3 3 \<and>
   lost (exec [Click 4 4 exampleTightDraws, NewGameButton,
               Click 0 0 exampleSecondDraws, TimeoutFires 0] constructed)"
  by code_simp

end
